theory Spec2Isabelle
  imports Complex_Main "HOL-Library.Multiset" "HOL-Library.Product_Lexorder"
begin

section \<open>The request model\<close>

text \<open>
  The class \<open>Request\<close> of \<open>os1.py\<close>. Python integers are unbounded, so the integer
  fields are \<open>int\<close>; \<open>arrival_time\<close> is a Python float that the program only
  compares and sorts by, and is a \<open>real\<close> here. The field \<open>id\<close> of the source is
  called \<open>req_id\<close>, since \<open>id\<close> is the identity function of HOL.

  A request is a value in this development. A list of requests stands for a list of
  pairwise distinct objects, which is what \<open>generate_requests\<close> builds: every position
  of a queue has a \<open>remaining_time\<close> of its own.
\<close>

record Request =
  req_id :: int
  processing_time :: int
  priority :: int
  arrival_time :: real
  remaining_time :: int

text \<open>\<open>Request.__init__\<close>: the remaining time starts at the processing time.\<close>

definition Request_init :: "int \<Rightarrow> int \<Rightarrow> int \<Rightarrow> real \<Rightarrow> Request" where
  "Request_init i p pr a =
     \<lparr>req_id = i, processing_time = p, priority = pr, arrival_time = a, remaining_time = p\<rparr>"

datatype error = ValueError

type_synonym completion = "Request \<times> int"

text \<open>
  The local state of one scheduling loop: the deque \<open>self.queue\<close>, the counter
  \<open>total_time\<close> and the list \<open>completed_requests\<close>.
\<close>

type_synonym run_state = "Request list \<times> int \<times> completion list"

section \<open>The web server and its scheduling loops\<close>

record WebServer =
  queue :: "Request list"

definition WebServer_init :: WebServer where
  "WebServer_init = \<lparr>queue = []\<rparr>"

definition add_request :: "WebServer \<Rightarrow> Request \<Rightarrow> WebServer" where
  "add_request self request = self\<lparr>queue := queue self @ [request]\<rparr>"

subsection \<open>Round robin\<close>

text \<open>
  One iteration of the body of \<open>while self.queue\<close> in \<open>process_round_robin\<close>. The loop
  only enters the body on a non-empty queue; the first equation is never reached from
  the loop and leaves the state as it is.
\<close>

fun rr_step :: "int \<Rightarrow> run_state \<Rightarrow> run_state" where
  "rr_step time_quantum ([], total_time, completed_requests) =
     ([], total_time, completed_requests)"
| "rr_step time_quantum (current_request # rest, total_time, completed_requests) =
     (if remaining_time current_request \<le> time_quantum
      then (rest,
            total_time + remaining_time current_request,
            completed_requests @
              [(current_request\<lparr>remaining_time := 0\<rparr>,
                total_time + remaining_time current_request)])
      else (rest @ [current_request
                      \<lparr>remaining_time := remaining_time current_request - time_quantum\<rparr>],
            total_time + time_quantum,
            completed_requests))"

text \<open>
  The loop itself. Nothing in the source bounds the number of iterations, so the loop is
  a partial function: \<open>None\<close> is a run that never leaves the loop.
\<close>

partial_function (option) rr_loop :: "int \<Rightarrow> run_state \<Rightarrow> run_state option" where
  "rr_loop time_quantum s =
     (if fst s = [] then Some s else rr_loop time_quantum (rr_step time_quantum s))"

text \<open>
  \<open>process_round_robin\<close> returns \<open>completed_requests\<close>; the server, whose queue the
  method has consumed, is returned with it.
\<close>

definition process_round_robin ::
    "WebServer \<Rightarrow> int \<Rightarrow> (completion list \<times> WebServer) option" where
  "process_round_robin self time_quantum =
     map_option (\<lambda>(qu, total_time, completed_requests).
                    (completed_requests, self\<lparr>queue := qu\<rparr>))
       (rr_loop time_quantum (queue self, 0, []))"

subsection \<open>Selection of the minimum\<close>

text \<open>
  Python's \<open>min(iterable, key=f)\<close> on a non-empty iterable: it keeps the first element
  and replaces it only by an element whose key is strictly smaller, so the first of
  several minimal elements is returned. A tuple key is compared lexicographically,
  which is the order of pairs used here.
\<close>

fun min_from :: "('a \<Rightarrow> 'k::linorder) \<Rightarrow> 'a \<Rightarrow> 'a list \<Rightarrow> 'a" where
  "min_from key best [] = best"
| "min_from key best (x # xs) = min_from key (if key x < key best then x else best) xs"

definition py_min :: "('a \<Rightarrow> 'k::linorder) \<Rightarrow> 'a list \<Rightarrow> error + 'a" where
  "py_min key xs = (case xs of [] \<Rightarrow> Inl ValueError | x # rest \<Rightarrow> Inr (min_from key x rest))"

subsection \<open>Priority scheduling\<close>

text \<open>
  One iteration of the body of the loop of \<open>process_priority_scheduling\<close>:
  \<open>min\<close>, \<open>self.queue.remove\<close> (which deletes the first element equal to its argument),
  the addition of the full processing time and the new record. \<open>min\<close> raises
  \<open>ValueError\<close> on an empty queue; the loop only enters the body on a non-empty one,
  and the step leaves the state as it is in that branch. \<open>remove\<close> raises when its
  argument is not in the queue, which the result of \<open>min\<close> always is.
\<close>

definition priority_select :: "bool \<Rightarrow> Request list \<Rightarrow> error + Request" where
  "priority_select preemptive qu =
     (if preemptive then py_min (\<lambda>x. (priority x, arrival_time x)) qu
      else py_min priority qu)"

definition priority_step :: "bool \<Rightarrow> run_state \<Rightarrow> run_state" where
  "priority_step preemptive s =
     (case s of (qu, total_time, completed_requests) \<Rightarrow>
        (case priority_select preemptive qu of
           Inl e \<Rightarrow> s
         | Inr highest_priority \<Rightarrow>
             (remove1 highest_priority qu,
              total_time + processing_time highest_priority,
              completed_requests @
                [(highest_priority, total_time + processing_time highest_priority)])))"

text \<open>
  The loop of \<open>process_priority_scheduling\<close>. Every iteration takes one request out
  of the queue, which is the termination argument.
\<close>

function priority_loop :: "bool \<Rightarrow> run_state \<Rightarrow> run_state" where
  "priority_loop preemptive s =
     (if fst s = [] then s else priority_loop preemptive (priority_step preemptive s))"
  by pat_completeness auto
termination
proof (relation "measure (\<lambda>(preemptive, s). length (fst s))")
  show "wf (measure (\<lambda>(preemptive, s). length (fst s)))"
    by simp
next
  fix preemptive :: bool and s :: run_state
  assume nonempty: "fst s \<noteq> []"
  obtain qu total_time completed_requests where s: "s = (qu, total_time, completed_requests)"
    by (cases s)
  from nonempty s obtain x rest where qu: "qu = x # rest"
    by (cases qu) auto
  have sel1: "min_from priority b xs \<in> set (b # xs)"
    for b :: Request and xs
    by (induction xs arbitrary: b) auto
  have sel2: "min_from (\<lambda>x. (priority x, arrival_time x)) b xs \<in> set (b # xs)"
    for b :: Request and xs
    by (induction xs arbitrary: b) auto
  have "\<exists>m. priority_select preemptive qu = Inr m \<and> m \<in> set qu"
    using sel1 [of x rest] sel2 [of x rest]
    by (cases preemptive) (simp_all add: priority_select_def py_min_def qu)
  then obtain m where m: "priority_select preemptive qu = Inr m" "m \<in> set qu"
    by blast
  from m(2) have "0 < length qu"
    by (rule length_pos_if_in_set)
  with m(2) have "length (remove1 m qu) < length qu"
    by (simp add: length_remove1)
  with m(1) have "length (fst (priority_step preemptive s)) < length (fst s)"
    by (simp add: priority_step_def s)
  then show "((preemptive, priority_step preemptive s), (preemptive, s))
      \<in> measure (\<lambda>(preemptive, s). length (fst s))"
    by simp
qed

declare priority_loop.simps [simp del]

definition process_priority_scheduling ::
    "WebServer \<Rightarrow> bool \<Rightarrow> completion list \<times> WebServer" where
  "process_priority_scheduling self preemptive =
     (case priority_loop preemptive (queue self, 0, []) of
        (qu, total_time, completed_requests) \<Rightarrow> (completed_requests, self\<lparr>queue := qu\<rparr>))"

subsection \<open>Shortest job first\<close>

definition sjf_select :: "bool \<Rightarrow> Request list \<Rightarrow> error + Request" where
  "sjf_select preemptive qu =
     (if preemptive then py_min (\<lambda>x. (remaining_time x, arrival_time x)) qu
      else py_min processing_time qu)"

definition sjf_step :: "bool \<Rightarrow> run_state \<Rightarrow> run_state" where
  "sjf_step preemptive s =
     (case s of (qu, total_time, completed_requests) \<Rightarrow>
        (case sjf_select preemptive qu of
           Inl e \<Rightarrow> s
         | Inr shortest_job \<Rightarrow>
             (remove1 shortest_job qu,
              total_time + processing_time shortest_job,
              completed_requests @
                [(shortest_job, total_time + processing_time shortest_job)])))"

function sjf_loop :: "bool \<Rightarrow> run_state \<Rightarrow> run_state" where
  "sjf_loop preemptive s =
     (if fst s = [] then s else sjf_loop preemptive (sjf_step preemptive s))"
  by pat_completeness auto
termination
proof (relation "measure (\<lambda>(preemptive, s). length (fst s))")
  show "wf (measure (\<lambda>(preemptive, s). length (fst s)))"
    by simp
next
  fix preemptive :: bool and s :: run_state
  assume nonempty: "fst s \<noteq> []"
  obtain qu total_time completed_requests where s: "s = (qu, total_time, completed_requests)"
    by (cases s)
  from nonempty s obtain x rest where qu: "qu = x # rest"
    by (cases qu) auto
  have sel1: "min_from processing_time b xs \<in> set (b # xs)"
    for b :: Request and xs
    by (induction xs arbitrary: b) auto
  have sel2: "min_from (\<lambda>x. (remaining_time x, arrival_time x)) b xs \<in> set (b # xs)"
    for b :: Request and xs
    by (induction xs arbitrary: b) auto
  have "\<exists>m. sjf_select preemptive qu = Inr m \<and> m \<in> set qu"
    using sel1 [of x rest] sel2 [of x rest]
    by (cases preemptive) (simp_all add: sjf_select_def py_min_def qu)
  then obtain m where m: "sjf_select preemptive qu = Inr m" "m \<in> set qu"
    by blast
  from m(2) have "0 < length qu"
    by (rule length_pos_if_in_set)
  with m(2) have "length (remove1 m qu) < length qu"
    by (simp add: length_remove1)
  with m(1) have "length (fst (sjf_step preemptive s)) < length (fst s)"
    by (simp add: sjf_step_def s)
  then show "((preemptive, sjf_step preemptive s), (preemptive, s))
      \<in> measure (\<lambda>(preemptive, s). length (fst s))"
    by simp
qed

declare sjf_loop.simps [simp del]

definition process_shortest_job_first ::
    "WebServer \<Rightarrow> bool \<Rightarrow> completion list \<times> WebServer" where
  "process_shortest_job_first self preemptive =
     (case sjf_loop preemptive (queue self, 0, []) of
        (qu, total_time, completed_requests) \<Rightarrow> (completed_requests, self\<lparr>queue := qu\<rparr>))"

section \<open>The request generator\<close>

text \<open>
  \<open>generate_requests\<close> draws three random numbers per request. The random source is a
  parameter: \<open>rnd i\<close> holds the draws of iteration \<open>i\<close>, namely the results of
  \<open>random.randint(1, 10)\<close> and \<open>random.randint(1, 5)\<close> and the number \<open>u\<close> that
  \<open>random.random()\<close> returns inside \<open>random.uniform\<close>. Python documents
  \<open>random.uniform(a, b)\<close> as \<open>a + (b - a) * random()\<close>, and that equation is
  \<open>uniform\<close>, read over the reals.
\<close>

type_synonym random_source = "nat \<Rightarrow> int \<times> int \<times> real"

definition uniform :: "real \<Rightarrow> real \<Rightarrow> real \<Rightarrow> real" where
  "uniform a b u = a + (b - a) * u"

definition draw_request :: "real \<Rightarrow> random_source \<Rightarrow> nat \<Rightarrow> Request" where
  "draw_request max_arrival_time rnd i =
     (case rnd i of (processing_time', priority', u) \<Rightarrow>
        Request_init (int i) processing_time' priority' (uniform 0 max_arrival_time u))"

text \<open>
  \<open>range(num_requests)\<close> is empty for a negative argument; \<open>sorted\<close> is a stable
  sort, as the insertion sort \<open>sort_key\<close> is.
\<close>

definition generate_requests :: "int \<Rightarrow> real \<Rightarrow> random_source \<Rightarrow> Request list" where
  "generate_requests num_requests max_arrival_time rnd =
     sort_key arrival_time
       (map (draw_request max_arrival_time rnd) [0..<nat num_requests])"

text \<open>
  A fixed random source for the examples: processing times and priorities cycle through
  their ranges, and the unit draws alternate, so that arrival times repeat.
\<close>

definition sample_source :: random_source where
  "sample_source i = (1 + int (i mod 10), 1 + int (i mod 5), if even i then 1 / 2 else 1 / 4)"

section \<open>The simulation driver\<close>

text \<open>
  \<open>simulate_scheduling\<close> without the wall clock: the second component of its result,
  a difference of two readings of \<open>time.time()\<close>, is left out. The result is \<open>None\<close>
  when the call never returns, \<open>Some (Inl ValueError)\<close> when it raises, and the list
  of completion records otherwise.
\<close>

definition simulate_scheduling ::
    "Request list \<Rightarrow> string \<Rightarrow> int \<Rightarrow> bool \<Rightarrow> (error + completion list) option" where
  "simulate_scheduling requests algorithm time_quantum preemptive =
     (let server = fold (\<lambda>request server. add_request server request) requests WebServer_init
      in if algorithm = ''round_robin''
           then map_option (\<lambda>r. Inr (fst r)) (process_round_robin server time_quantum)
         else if algorithm = ''priority''
           then Some (Inr (fst (process_priority_scheduling server preemptive)))
         else if algorithm = ''sjf''
           then Some (Inr (fst (process_shortest_job_first server preemptive)))
         else Some (Inl ValueError))"

section \<open>Measures and invariants of the loops\<close>

text \<open>
  The quantity that a round-robin iteration with a positive quantum decreases: one
  unit per queued request plus its remaining time, where that is positive.
\<close>

definition rr_measure :: "run_state \<Rightarrow> nat" where
  "rr_measure s = (\<Sum>r\<leftarrow>fst s. Suc (nat (remaining_time r)))"

text \<open>
  The invariant of the round-robin loop on a batch whose remaining times are positive:
  the clock and the queued remaining times add up to \<open>T\<close>, queued requests have
  work left, and the emitted times are positive, ascending and bounded by the clock.
\<close>

definition rr_inv :: "int \<Rightarrow> run_state \<Rightarrow> bool" where
  "rr_inv T s =
     (case s of (qu, total_time, completed_requests) \<Rightarrow>
        total_time + sum_list (map remaining_time qu) = T \<and>
        (\<forall>r\<in>set qu. 0 < remaining_time r) \<and>
        0 \<le> total_time \<and>
        sorted (map snd completed_requests) \<and>
        (\<forall>c\<in>set completed_requests. 0 < snd c \<and> snd c \<le> total_time) \<and>
        (qu = [] \<and> completed_requests \<noteq> [] \<longrightarrow> snd (last completed_requests) = total_time))"

text \<open>
  The same for the two selection loops, which charge the full processing time.
\<close>

definition selection_inv :: "int \<Rightarrow> run_state \<Rightarrow> bool" where
  "selection_inv T s =
     (case s of (qu, total_time, completed_requests) \<Rightarrow>
        total_time + sum_list (map processing_time qu) = T \<and>
        (\<forall>r\<in>set qu. 0 < processing_time r) \<and>
        0 \<le> total_time \<and>
        sorted (map snd completed_requests) \<and>
        (\<forall>c\<in>set completed_requests. 0 < snd c \<and> snd c \<le> total_time) \<and>
        (completed_requests \<noteq> [] \<longrightarrow> snd (last completed_requests) = total_time))"

text \<open>
  What round robin keeps true of the remaining times: a queued request has work left
  and no more than its processing time, a recorded request has none.
\<close>

definition rr_remaining_inv :: "run_state \<Rightarrow> bool" where
  "rr_remaining_inv s =
     ((\<forall>r\<in>set (fst s). 0 < remaining_time r \<and> remaining_time r \<le> processing_time r) \<and>
      (\<forall>c\<in>set (snd (snd s)). remaining_time (fst c) = 0 \<and> 0 \<le> processing_time (fst c)))"

subsection \<open>The selected request\<close>

lemma min_from_in: "min_from key b xs \<in> set (b # xs)"
  by (induction xs arbitrary: b) auto

lemma min_from_le_best: "key (min_from key b xs) \<le> key b"
proof (induction xs arbitrary: b)
  case Nil
  show ?case by simp
next
  case (Cons y ys)
  show ?case
  proof (cases "key y < key b")
    case True
    with Cons [of y] show ?thesis by simp
  next
    case False
    with Cons [of b] show ?thesis by simp
  qed
qed

lemma min_from_le: "x \<in> set xs \<Longrightarrow> key (min_from key b xs) \<le> key x"
proof (induction xs arbitrary: b)
  case Nil
  then show ?case by simp
next
  case (Cons y ys)
  let ?b = "if key y < key b then y else b"
  show ?case
  proof (cases "x = y")
    case True
    have "key (min_from key ?b ys) \<le> key ?b"
      by (rule min_from_le_best)
    also have "key ?b \<le> key y"
      by (simp add: not_less)
    finally show ?thesis
      using True by simp
  next
    case False
    with Cons.prems have "x \<in> set ys" by simp
    then have "key (min_from key ?b ys) \<le> key x"
      by (rule Cons.IH)
    then show ?thesis by simp
  qed
qed

lemma py_min_nonempty:
  assumes "xs \<noteq> []"
  shows "\<exists>m. py_min key xs = Inr m \<and> m \<in> set xs \<and> (\<forall>x\<in>set xs. key m \<le> key x)"
proof -
  from assms obtain b rest where xs: "xs = b # rest" by (cases xs) auto
  show ?thesis
    unfolding xs py_min_def
    using min_from_in [of key b rest] min_from_le [of _ rest key b]
      min_from_le_best [of key b rest]
    by auto
qed

subsection \<open>One iteration of a selection loop\<close>

lemma priority_step_select:
  assumes "qu \<noteq> []"
  shows "\<exists>m. priority_select preemptive qu = Inr m \<and> m \<in> set qu \<and>
           priority_step preemptive (qu, total_time, completed_requests) =
             (remove1 m qu, total_time + processing_time m,
              completed_requests @ [(m, total_time + processing_time m)])"
proof -
  obtain m where "priority_select preemptive qu = Inr m" "m \<in> set qu"
    using py_min_nonempty [OF assms, of priority]
      py_min_nonempty [OF assms, of "\<lambda>x. (priority x, arrival_time x)"]
    by (cases preemptive) (auto simp: priority_select_def)
  then show ?thesis by (simp add: priority_step_def)
qed

lemma sjf_step_select:
  assumes "qu \<noteq> []"
  shows "\<exists>m. sjf_select preemptive qu = Inr m \<and> m \<in> set qu \<and>
           sjf_step preemptive (qu, total_time, completed_requests) =
             (remove1 m qu, total_time + processing_time m,
              completed_requests @ [(m, total_time + processing_time m)])"
proof -
  obtain m where "sjf_select preemptive qu = Inr m" "m \<in> set qu"
    using py_min_nonempty [OF assms, of processing_time]
      py_min_nonempty [OF assms, of "\<lambda>x. (remaining_time x, arrival_time x)"]
    by (cases preemptive) (auto simp: sjf_select_def)
  then show ?thesis by (simp add: sjf_step_def)
qed

subsection \<open>Invariant rules\<close>

text \<open>
  A predicate that holds at the start of a loop and that every iteration taken on a
  non-empty queue preserves holds at the exit, where the queue is empty. For round
  robin the rule also states that the loop is left, which needs a positive quantum.
\<close>

lemma priority_loop_rule:
  assumes "I s" and "\<And>s. I s \<Longrightarrow> fst s \<noteq> [] \<Longrightarrow> I (priority_step preemptive s)"
  shows "I (priority_loop preemptive s) \<and> fst (priority_loop preemptive s) = []"
  using assms
proof (induction preemptive s rule: priority_loop.induct)
  case (1 preemptive s)
  show ?case
  proof (cases "fst s = []")
    case True
    with "1.prems"(1) show ?thesis
      by (subst (1 2) priority_loop.simps) simp
  next
    case False
    with "1.prems" have "I (priority_step preemptive s)" by blast
    with False "1.IH" "1.prems"(2) show ?thesis
      by (subst (1 2) priority_loop.simps) simp
  qed
qed

lemma sjf_loop_rule:
  assumes "I s" and "\<And>s. I s \<Longrightarrow> fst s \<noteq> [] \<Longrightarrow> I (sjf_step preemptive s)"
  shows "I (sjf_loop preemptive s) \<and> fst (sjf_loop preemptive s) = []"
  using assms
proof (induction preemptive s rule: sjf_loop.induct)
  case (1 preemptive s)
  show ?case
  proof (cases "fst s = []")
    case True
    with "1.prems"(1) show ?thesis
      by (subst (1 2) sjf_loop.simps) simp
  next
    case False
    with "1.prems" have "I (sjf_step preemptive s)" by blast
    with False "1.IH" "1.prems"(2) show ?thesis
      by (subst (1 2) sjf_loop.simps) simp
  qed
qed

lemma rr_step_measure:
  assumes "0 < q" "fst s \<noteq> []"
  shows "rr_measure (rr_step q s) < rr_measure s"
proof -
  obtain r rest t c where s: "s = (r # rest, t, c)"
    using assms(2) by (cases s; cases "fst s") auto
  show ?thesis using assms(1) by (auto simp: s rr_measure_def)
qed

lemma rr_loop_rule_measure:
  fixes f :: "run_state \<Rightarrow> nat"
  assumes "I s"
    and "\<And>s. I s \<Longrightarrow> fst s \<noteq> [] \<Longrightarrow> I (rr_step q s) \<and> f (rr_step q s) < f s"
  shows "\<exists>s'. rr_loop q s = Some s' \<and> I s' \<and> fst s' = []"
  using assms(1)
proof (induction "f s" arbitrary: s rule: less_induct)
  case less
  show ?case
  proof (cases "fst s = []")
    case True
    with less.prems show ?thesis by (simp add: rr_loop.simps)
  next
    case False
    with less.prems have "I (rr_step q s) \<and> f (rr_step q s) < f s"
      by (rule assms(2))
    then have "\<exists>s'. rr_loop q (rr_step q s) = Some s' \<and> I s' \<and> fst s' = []"
      using less.hyps by blast
    with False show ?thesis by (subst rr_loop.simps) simp
  qed
qed

lemma rr_loop_rule:
  assumes "0 < q" and "I s" and "\<And>s. I s \<Longrightarrow> fst s \<noteq> [] \<Longrightarrow> I (rr_step q s)"
  shows "\<exists>s'. rr_loop q s = Some s' \<and> I s' \<and> fst s' = []"
  using assms(2)
proof (rule rr_loop_rule_measure [where f = rr_measure])
  fix s :: run_state
  assume "I s" "fst s \<noteq> []"
  then show "I (rr_step q s) \<and> rr_measure (rr_step q s) < rr_measure s"
    using assms(3) rr_step_measure [OF assms(1)] by blast
qed


subsection \<open>What one iteration preserves\<close>

lemma rr_step_empty: "fst s = [] \<Longrightarrow> rr_step q s = s"
  by (cases "(q, s)" rule: rr_step.cases) auto

lemma priority_step_empty: "fst s = [] \<Longrightarrow> priority_step preemptive s = s"
  by (cases s) (simp add: priority_step_def priority_select_def py_min_def)

lemma sjf_step_empty: "fst s = [] \<Longrightarrow> sjf_step preemptive s = s"
  by (cases s) (simp add: sjf_step_def sjf_select_def py_min_def)

lemma rr_step_ids:
  "mset (map req_id (fst (rr_step q s))) +
     mset (map (\<lambda>c. req_id (fst c)) (snd (snd (rr_step q s)))) =
   mset (map req_id (fst s)) + mset (map (\<lambda>c. req_id (fst c)) (snd (snd s)))"
  by (cases "(q, s)" rule: rr_step.cases) auto

lemma priority_step_requests:
  "mset (fst (priority_step preemptive s)) + mset (map fst (snd (snd (priority_step preemptive s)))) =
   mset (fst s) + mset (map fst (snd (snd s)))"
proof (cases "fst s = []")
  case True
  then show ?thesis by (simp add: priority_step_empty)
next
  case False
  obtain qu t c where s: "s = (qu, t, c)" by (cases s)
  with False have "qu \<noteq> []" by simp
  then obtain m where "m \<in> set qu"
      "priority_step preemptive (qu, t, c) =
         (remove1 m qu, t + processing_time m, c @ [(m, t + processing_time m)])"
    using priority_step_select by blast
  then show ?thesis by (simp add: s)
qed

lemma sjf_step_requests:
  "mset (fst (sjf_step preemptive s)) + mset (map fst (snd (snd (sjf_step preemptive s)))) =
   mset (fst s) + mset (map fst (snd (snd s)))"
proof (cases "fst s = []")
  case True
  then show ?thesis by (simp add: sjf_step_empty)
next
  case False
  obtain qu t c where s: "s = (qu, t, c)" by (cases s)
  with False have "qu \<noteq> []" by simp
  then obtain m where "m \<in> set qu"
      "sjf_step preemptive (qu, t, c) =
         (remove1 m qu, t + processing_time m, c @ [(m, t + processing_time m)])"
    using sjf_step_select by blast
  then show ?thesis by (simp add: s)
qed

lemma funpow_invariant:
  assumes "I s" and "\<And>s. I s \<Longrightarrow> I (f s)"
  shows "I ((f ^^ n) s)"
  using assms by (induction n) auto

lemma completed_ids:
  assumes "mset (map (\<lambda>c. req_id (fst c)) completed) = mset (map req_id batch)"
  shows "length completed = length batch \<and>
         (distinct (map req_id batch) \<longrightarrow> distinct (map (\<lambda>c. req_id (fst c)) completed))"
proof -
  have "size (mset (map (\<lambda>c. req_id (fst c)) completed)) = size (mset (map req_id batch))"
    by (simp only: assms)
  then have "length completed = length batch" by simp
  moreover have "distinct (map req_id batch) \<longrightarrow> distinct (map (\<lambda>c. req_id (fst c)) completed)"
    using assms by (metis mset_eq_imp_distinct_iff)
  ultimately show ?thesis by blast
qed

lemma rr_loop_ids:
  assumes "0 < q"
  shows "\<exists>total_time completed. rr_loop q (batch, 0, []) = Some ([], total_time, completed) \<and>
           mset (map (\<lambda>c. req_id (fst c)) completed) = mset (map req_id batch)"
proof -
  let ?I = "\<lambda>s. mset (map req_id (fst s)) + mset (map (\<lambda>c. req_id (fst c)) (snd (snd s))) =
              mset (map req_id batch)"
  have "\<exists>s'. rr_loop q (batch, 0, []) = Some s' \<and> ?I s' \<and> fst s' = []"
    using assms
  proof (rule rr_loop_rule)
    show "?I (batch, 0, [])" by simp
  next
    fix s :: run_state
    assume "?I s"
    then show "?I (rr_step q s)" by (simp only: rr_step_ids)
  qed
  then obtain s' where s': "rr_loop q (batch, 0, []) = Some s'" "?I s'" "fst s' = []"
    by blast
  obtain qu t c where "s' = (qu, t, c)" by (cases s')
  with s' show ?thesis by auto
qed

lemma priority_loop_requests:
  "\<exists>total_time completed. priority_loop preemptive (batch, 0, []) = ([], total_time, completed) \<and>
           mset (map fst completed) = mset batch"
proof -
  let ?I = "\<lambda>s. mset (fst s) + mset (map fst (snd (snd s))) = mset batch"
  have "?I (priority_loop preemptive (batch, 0, [])) \<and>
        fst (priority_loop preemptive (batch, 0, [])) = []"
  proof (rule priority_loop_rule)
    show "?I (batch, 0, [])" by simp
  next
    fix s :: run_state
    assume "?I s"
    then show "?I (priority_step preemptive s)" by (simp only: priority_step_requests)
  qed
  then show ?thesis by (cases "priority_loop preemptive (batch, 0, [])") auto
qed

lemma sjf_loop_requests:
  "\<exists>total_time completed. sjf_loop preemptive (batch, 0, []) = ([], total_time, completed) \<and>
           mset (map fst completed) = mset batch"
proof -
  let ?I = "\<lambda>s. mset (fst s) + mset (map fst (snd (snd s))) = mset batch"
  have "?I (sjf_loop preemptive (batch, 0, [])) \<and>
        fst (sjf_loop preemptive (batch, 0, [])) = []"
  proof (rule sjf_loop_rule)
    show "?I (batch, 0, [])" by simp
  next
    fix s :: run_state
    assume "?I s"
    then show "?I (sjf_step preemptive s)" by (simp only: sjf_step_requests)
  qed
  then show ?thesis by (cases "sjf_loop preemptive (batch, 0, [])") auto
qed

lemma mset_requests_ids:
  assumes "mset (map fst completed) = mset batch"
  shows "mset (map (\<lambda>c. req_id (fst c)) completed) = mset (map req_id batch)"
proof -
  have "mset (map req_id (map fst completed)) = mset (map req_id batch)"
    using assms by (metis mset_map)
  then show ?thesis by (simp add: comp_def)
qed


lemma rr_step_inv:
  assumes "0 < q" "rr_inv T s"
  shows "rr_inv T (rr_step q s)"
proof (cases s)
  case (fields qu t c)
  show ?thesis
  proof (cases qu)
    case Nil
    with fields assms(2) show ?thesis by simp
  next
    case (Cons r rest)
    from assms(2) have inv:
        "t + (remaining_time r + sum_list (map remaining_time rest)) = T"
        "0 < remaining_time r" "\<forall>x\<in>set rest. 0 < remaining_time x" "0 \<le> t"
        "sorted (map snd c)" "\<forall>x\<in>set c. 0 < snd x \<and> snd x \<le> t"
      by (simp_all add: rr_inv_def fields Cons)
    show ?thesis
    proof (cases "remaining_time r \<le> q")
      case True
      have "sorted (map snd c @ [t + remaining_time r])"
        using inv(2,5,6) by (fastforce simp: sorted_append)
      with True inv show ?thesis
        by (fastforce simp: rr_inv_def fields Cons)
    next
      case False
      with assms(1) inv show ?thesis
        by (fastforce simp: rr_inv_def fields Cons)
    qed
  qed
qed

lemma selection_inv_complete:
  assumes "selection_inv T (qu, t, c)" "m \<in> set qu"
  shows "selection_inv T (remove1 m qu, t + processing_time m, c @ [(m, t + processing_time m)])"
proof -
  from assms(1) have inv:
      "t + sum_list (map processing_time qu) = T"
      "\<forall>x\<in>set qu. 0 < processing_time x" "0 \<le> t"
      "sorted (map snd c)" "\<forall>x\<in>set c. 0 < snd x \<and> snd x \<le> t"
    by (simp_all add: selection_inv_def)
  from assms(2) have sum:
      "sum_list (map processing_time qu) =
         processing_time m + sum_list (map processing_time (remove1 m qu))"
    by (rule sum_list_map_remove1)
  from inv(2) assms(2) have pos: "0 < processing_time m" by blast
  have rest: "\<forall>x\<in>set (remove1 m qu). 0 < processing_time x"
    using inv(2) by (meson notin_set_remove1)
  have "sorted (map snd c @ [t + processing_time m])"
    using pos inv(4,5) by (fastforce simp: sorted_append)
  with inv sum pos rest show ?thesis
    by (fastforce simp: selection_inv_def)
qed

lemma priority_step_inv:
  assumes "selection_inv T s"
  shows "selection_inv T (priority_step preemptive s)"
proof (cases "fst s = []")
  case True
  with assms show ?thesis by (simp add: priority_step_empty)
next
  case False
  obtain qu t c where s: "s = (qu, t, c)" by (cases s)
  with False have "qu \<noteq> []" by simp
  then obtain m where "m \<in> set qu"
      "priority_step preemptive (qu, t, c) =
         (remove1 m qu, t + processing_time m, c @ [(m, t + processing_time m)])"
    using priority_step_select by blast
  with assms show ?thesis
    unfolding s by (simp add: selection_inv_complete)
qed

lemma sjf_step_inv:
  assumes "selection_inv T s"
  shows "selection_inv T (sjf_step preemptive s)"
proof (cases "fst s = []")
  case True
  with assms show ?thesis by (simp add: sjf_step_empty)
next
  case False
  obtain qu t c where s: "s = (qu, t, c)" by (cases s)
  with False have "qu \<noteq> []" by simp
  then obtain m where "m \<in> set qu"
      "sjf_step preemptive (qu, t, c) =
         (remove1 m qu, t + processing_time m, c @ [(m, t + processing_time m)])"
    using sjf_step_select by blast
  with assms show ?thesis
    unfolding s by (simp add: selection_inv_complete)
qed

lemma load_requests:
  "fold (\<lambda>request server. add_request server request) requests server =
     server\<lparr>queue := queue server @ requests\<rparr>"
  by (induction requests arbitrary: server) (simp_all add: add_request_def)

lemma rr_loop_times:
  assumes "0 < q" and "\<forall>r\<in>set batch. remaining_time r = processing_time r \<and> 0 < processing_time r"
  shows "\<exists>completed. rr_loop q (batch, 0, []) =
             Some ([], sum_list (map processing_time batch), completed) \<and>
           sorted (map snd completed) \<and> (\<forall>c\<in>set completed. 0 < snd c) \<and>
           (completed \<noteq> [] \<longrightarrow> snd (last completed) = sum_list (map processing_time batch))"
proof -
  let ?T = "sum_list (map processing_time batch)"
  have same: "map remaining_time batch = map processing_time batch"
    using assms(2) by simp
  have start: "rr_inv ?T (batch, 0, [])"
    using assms(2) by (simp add: rr_inv_def same)
  have "\<exists>s'. rr_loop q (batch, 0, []) = Some s' \<and> rr_inv ?T s' \<and> fst s' = []"
    using assms(1) start by (rule rr_loop_rule) (rule rr_step_inv [OF assms(1)])
  then obtain s' where s': "rr_loop q (batch, 0, []) = Some s'" "rr_inv ?T s'" "fst s' = []"
    by blast
  obtain qu t c where "s' = (qu, t, c)" by (cases s')
  with s' show ?thesis by (auto simp: rr_inv_def)
qed

lemma priority_loop_times:
  assumes "\<forall>r\<in>set batch. 0 < processing_time r"
  shows "\<exists>completed. priority_loop preemptive (batch, 0, []) =
             ([], sum_list (map processing_time batch), completed) \<and>
           sorted (map snd completed) \<and> (\<forall>c\<in>set completed. 0 < snd c) \<and>
           (completed \<noteq> [] \<longrightarrow> snd (last completed) = sum_list (map processing_time batch))"
proof -
  let ?T = "sum_list (map processing_time batch)"
  let ?s = "priority_loop preemptive (batch, 0, [])"
  have start: "selection_inv ?T (batch, 0, [])"
    using assms by (simp add: selection_inv_def)
  have "selection_inv ?T ?s \<and> fst ?s = []"
    using start by (rule priority_loop_rule) (rule priority_step_inv)
  then show ?thesis by (cases ?s) (auto simp: selection_inv_def)
qed

lemma sjf_loop_times:
  assumes "\<forall>r\<in>set batch. 0 < processing_time r"
  shows "\<exists>completed. sjf_loop preemptive (batch, 0, []) =
             ([], sum_list (map processing_time batch), completed) \<and>
           sorted (map snd completed) \<and> (\<forall>c\<in>set completed. 0 < snd c) \<and>
           (completed \<noteq> [] \<longrightarrow> snd (last completed) = sum_list (map processing_time batch))"
proof -
  let ?T = "sum_list (map processing_time batch)"
  let ?s = "sjf_loop preemptive (batch, 0, [])"
  have start: "selection_inv ?T (batch, 0, [])"
    using assms by (simp add: selection_inv_def)
  have "selection_inv ?T ?s \<and> fst ?s = []"
    using start by (rule sjf_loop_rule) (rule sjf_step_inv)
  then show ?thesis by (cases ?s) (auto simp: selection_inv_def)
qed


subsection \<open>Iterations and progress\<close>

lemma rr_loop_iterations:
  assumes "0 < q"
  shows "\<exists>n. fst ((rr_step q ^^ n) s) = [] \<and> rr_loop q s = Some ((rr_step q ^^ n) s)"
proof -
  let ?I = "\<lambda>s'. \<exists>n. s' = (rr_step q ^^ n) s"
  have "\<exists>s'. rr_loop q s = Some s' \<and> ?I s' \<and> fst s' = []"
    using assms
  proof (rule rr_loop_rule)
    have "s = (rr_step q ^^ 0) s" by simp
    then show "?I s" by blast
  next
    fix s' :: run_state
    assume "?I s'"
    then obtain n where "s' = (rr_step q ^^ n) s" by blast
    then have "rr_step q s' = (rr_step q ^^ Suc n) s" by simp
    then show "?I (rr_step q s')" by blast
  qed
  then show ?thesis by blast
qed

lemma priority_loop_iterations:
  "fst ((priority_step preemptive ^^ length (fst s)) s) = [] \<and>
   priority_loop preemptive s = (priority_step preemptive ^^ length (fst s)) s"
proof (induction preemptive s rule: priority_loop.induct)
  case (1 preemptive s)
  show ?case
  proof (cases "fst s = []")
    case True
    then show ?thesis by (subst priority_loop.simps) simp
  next
    case False
    obtain qu t c where s: "s = (qu, t, c)" by (cases s)
    with False have "qu \<noteq> []" by simp
    then obtain m where m: "m \<in> set qu"
        "priority_step preemptive (qu, t, c) =
           (remove1 m qu, t + processing_time m, c @ [(m, t + processing_time m)])"
      using priority_step_select by blast
    from m(1) have "0 < length qu" by (rule length_pos_if_in_set)
    with m have len: "length (fst s) = Suc (length (fst (priority_step preemptive s)))"
      by (simp add: s length_remove1)
    from "1.IH" [OF False] len False show ?thesis
      by (subst priority_loop.simps) (simp add: funpow_swap1)
  qed
qed

lemma sjf_loop_iterations:
  "fst ((sjf_step preemptive ^^ length (fst s)) s) = [] \<and>
   sjf_loop preemptive s = (sjf_step preemptive ^^ length (fst s)) s"
proof (induction preemptive s rule: sjf_loop.induct)
  case (1 preemptive s)
  show ?case
  proof (cases "fst s = []")
    case True
    then show ?thesis by (subst sjf_loop.simps) simp
  next
    case False
    obtain qu t c where s: "s = (qu, t, c)" by (cases s)
    with False have "qu \<noteq> []" by simp
    then obtain m where m: "m \<in> set qu"
        "sjf_step preemptive (qu, t, c) =
           (remove1 m qu, t + processing_time m, c @ [(m, t + processing_time m)])"
      using sjf_step_select by blast
    from m(1) have "0 < length qu" by (rule length_pos_if_in_set)
    with m have len: "length (fst s) = Suc (length (fst (sjf_step preemptive s)))"
      by (simp add: s length_remove1)
    from "1.IH" [OF False] len False show ?thesis
      by (subst sjf_loop.simps) (simp add: funpow_swap1)
  qed
qed

lemma rr_step_progress:
  assumes "fst s \<noteq> []"
  shows "Suc (length (fst (rr_step q s))) = length (fst s) \<or>
         length (fst (rr_step q s)) = length (fst s) \<and>
         sum_list (map remaining_time (fst (rr_step q s))) + q =
           sum_list (map remaining_time (fst s))"
proof -
  obtain r rest t c where s: "s = (r # rest, t, c)"
    using assms by (cases s; cases "fst s") auto
  show ?thesis by (simp add: s)
qed

lemma selection_step_progress:
  assumes "fst s \<noteq> []"
  shows "Suc (length (fst (priority_step preemptive s))) = length (fst s)"
    and "Suc (length (fst (sjf_step preemptive s))) = length (fst s)"
proof -
  obtain qu t c where s: "s = (qu, t, c)" by (cases s)
  with assms have ne: "qu \<noteq> []" by simp
  obtain m where m: "m \<in> set qu"
      "priority_step preemptive (qu, t, c) =
         (remove1 m qu, t + processing_time m, c @ [(m, t + processing_time m)])"
    using priority_step_select [OF ne] by blast
  from m(1) have "0 < length qu" by (rule length_pos_if_in_set)
  with m show "Suc (length (fst (priority_step preemptive s))) = length (fst s)"
    by (simp add: s length_remove1)
  obtain m' where m': "m' \<in> set qu"
      "sjf_step preemptive (qu, t, c) =
         (remove1 m' qu, t + processing_time m', c @ [(m', t + processing_time m')])"
    using sjf_step_select [OF ne] by blast
  from m'(1) have "0 < length qu" by (rule length_pos_if_in_set)
  with m' show "Suc (length (fst (sjf_step preemptive s))) = length (fst s)"
    by (simp add: s length_remove1)
qed


subsection \<open>Round robin with a quantum that is not positive\<close>

text \<open>
  With a quantum of zero or less, a request whose remaining time exceeds the quantum
  is put back with at least the remaining time it had, so the queue never empties and
  the loop is never left. When no request is like that, every request completes at its
  first turn.
\<close>

lemma rr_step_stuck:
  assumes "q \<le> 0" and "\<exists>r\<in>set (fst s). q < remaining_time r"
  shows "\<exists>r\<in>set (fst (rr_step q s)). q < remaining_time r"
proof -
  from assms(2) obtain r0 rest t c where s: "s = (r0 # rest, t, c)"
    by (cases s; cases "fst s") auto
  show ?thesis
  proof (cases "remaining_time r0 \<le> q")
    case True
    with assms(2) show ?thesis by (auto simp: s)
  next
    case False
    with assms(1) show ?thesis by (simp add: s)
  qed
qed

lemma rr_loop_diverges:
  assumes "q \<le> 0" and "\<exists>r\<in>set (fst s). q < remaining_time r"
  shows "rr_loop q s = None"
proof (cases "rr_loop q s")
  case None
  then show ?thesis .
next
  case (Some y)
  then have "\<not> (q \<le> 0 \<and> (\<exists>r\<in>set (fst s). q < remaining_time r))"
  proof (induction rule: rr_loop.raw_induct [rotated, consumes 1])
    case (1 loop q s y)
    show ?case
    proof
      assume stuck: "q \<le> 0 \<and> (\<exists>r\<in>set (fst s). q < remaining_time r)"
      then have "fst s \<noteq> []" by auto
      with "1.hyps" have "loop q (rr_step q s) = Some y" by simp
      then have "\<not> (q \<le> 0 \<and> (\<exists>r\<in>set (fst (rr_step q s)). q < remaining_time r))"
        by (rule "1.IH")
      with stuck rr_step_stuck [of q s] show False by blast
    qed
  qed
  with assms show ?thesis by blast
qed

lemma rr_loop_all_complete:
  assumes "\<forall>r\<in>set batch. remaining_time r \<le> q"
  shows "\<exists>total_time completed. rr_loop q (batch, 0, []) = Some ([], total_time, completed)"
proof -
  let ?I = "\<lambda>s :: run_state. \<forall>r\<in>set (fst s). remaining_time r \<le> q"
  have "\<exists>s'. rr_loop q (batch, 0, []) = Some s' \<and> ?I s' \<and> fst s' = []"
  proof (rule rr_loop_rule_measure [where f = "\<lambda>s. length (fst s)"])
    show "?I (batch, 0, [])" using assms by simp
  next
    fix s :: run_state
    assume inv: "?I s" and "fst s \<noteq> []"
    then obtain r rest t c where s: "s = (r # rest, t, c)"
      by (cases s; cases "fst s") auto
    with inv show "?I (rr_step q s) \<and> length (fst (rr_step q s)) < length (fst s)"
      by simp
  qed
  then obtain s' where s': "rr_loop q (batch, 0, []) = Some s'" "fst s' = []"
    by blast
  then show ?thesis by (cases s') auto
qed

lemma simulate_round_robin:
  "simulate_scheduling requests ''round_robin'' q preemptive =
     map_option (\<lambda>s. Inr (snd (snd s))) (rr_loop q (requests, 0, []))"
  by (cases "rr_loop q (requests, 0, [])")
    (auto simp: simulate_scheduling_def load_requests WebServer_init_def process_round_robin_def)


subsection \<open>The states of a run\<close>

text \<open>
  The state after \<open>n\<close> iterations of a loop body is \<open>(step ^^ n)\<close> of the initial state;
  on the empty queue the body changes nothing, so from the exit on this is the final
  state.
\<close>

lemma sjf_run_requests:
  "mset (fst ((sjf_step preemptive ^^ n) (batch, 0, []))) +
     mset (map fst (snd (snd ((sjf_step preemptive ^^ n) (batch, 0, []))))) = mset batch"
proof -
  let ?I = "\<lambda>s :: run_state. mset (fst s) + mset (map fst (snd (snd s))) = mset batch"
  have "?I ((sjf_step preemptive ^^ n) (batch, 0, []))"
  proof (rule funpow_invariant)
    show "?I (batch, 0, [])" by simp
  next
    fix s :: run_state
    assume "?I s"
    then show "?I (sjf_step preemptive s)" by (simp only: sjf_step_requests)
  qed
  then show ?thesis .
qed

lemma priority_run_requests:
  "mset (fst ((priority_step preemptive ^^ n) (batch, 0, []))) +
     mset (map fst (snd (snd ((priority_step preemptive ^^ n) (batch, 0, []))))) = mset batch"
proof -
  let ?I = "\<lambda>s :: run_state. mset (fst s) + mset (map fst (snd (snd s))) = mset batch"
  have "?I ((priority_step preemptive ^^ n) (batch, 0, []))"
  proof (rule funpow_invariant)
    show "?I (batch, 0, [])" by simp
  next
    fix s :: run_state
    assume "?I s"
    then show "?I (priority_step preemptive s)" by (simp only: priority_step_requests)
  qed
  then show ?thesis .
qed


lemma rr_step_remaining_inv:
  assumes "0 < q" "rr_remaining_inv s"
  shows "rr_remaining_inv (rr_step q s)"
proof (cases s)
  case (fields qu t c)
  show ?thesis
  proof (cases qu)
    case Nil
    with fields assms(2) show ?thesis by simp
  next
    case (Cons r rest)
    with fields assms show ?thesis
      by (auto simp: rr_remaining_inv_def)
  qed
qed

lemma rr_run_remaining:
  assumes "0 < q"
    and "\<forall>r\<in>set batch. remaining_time r = processing_time r \<and> 0 < processing_time r"
  shows "rr_remaining_inv ((rr_step q ^^ n) (batch, 0, []))"
proof (rule funpow_invariant)
  show "rr_remaining_inv (batch, 0, [])"
    using assms(2) by (simp add: rr_remaining_inv_def)
next
  fix s :: run_state
  assume "rr_remaining_inv s"
  with assms(1) show "rr_remaining_inv (rr_step q s)"
    by (rule rr_step_remaining_inv)
qed

lemma rr_run_ids:
  "mset (map req_id (fst ((rr_step q ^^ n) (batch, 0, [])))) +
     mset (map (\<lambda>c. req_id (fst c)) (snd (snd ((rr_step q ^^ n) (batch, 0, []))))) =
   mset (map req_id batch)"
proof -
  let ?I = "\<lambda>s :: run_state.
    mset (map req_id (fst s)) + mset (map (\<lambda>c. req_id (fst c)) (snd (snd s))) =
      mset (map req_id batch)"
  have "?I ((rr_step q ^^ n) (batch, 0, []))"
  proof (rule funpow_invariant)
    show "?I (batch, 0, [])" by simp
  next
    fix s :: run_state
    assume "?I s"
    then show "?I (rr_step q s)" by (simp only: rr_step_ids)
  qed
  then show ?thesis .
qed

lemma rr_loop_remaining:
  assumes "0 < q"
    and "\<forall>r\<in>set batch. remaining_time r = processing_time r \<and> 0 < processing_time r"
  shows "\<exists>total_time completed.
           rr_loop q (batch, 0, []) = Some ([], total_time, completed) \<and>
           (\<forall>c\<in>set completed. remaining_time (fst c) = 0)"
proof -
  have "\<exists>s'. rr_loop q (batch, 0, []) = Some s' \<and> rr_remaining_inv s' \<and> fst s' = []"
    using assms(1)
  proof (rule rr_loop_rule)
    show "rr_remaining_inv (batch, 0, [])"
      using assms(2) by (simp add: rr_remaining_inv_def)
  next
    fix s :: run_state
    assume "rr_remaining_inv s"
    with assms(1) show "rr_remaining_inv (rr_step q s)"
      by (rule rr_step_remaining_inv)
  qed
  then obtain s' where s': "rr_loop q (batch, 0, []) = Some s'" "rr_remaining_inv s'"
      "fst s' = []"
    by blast
  then show ?thesis
    by (cases s') (auto simp: rr_remaining_inv_def)
qed

lemma unchanged_requests:
  assumes "mset qu + mset (map fst completed) = mset batch"
    and "\<forall>r\<in>set batch. remaining_time r = processing_time r \<and> 0 < processing_time r"
  shows "\<forall>r\<in>set qu \<union> fst ` set completed.
           remaining_time r = processing_time r \<and> 0 < remaining_time r"
proof
  fix r
  assume "r \<in> set qu \<union> fst ` set completed"
  then have "r \<in># mset qu + mset (map fst completed)"
    by auto
  with assms(1) have "r \<in> set batch"
    by (metis set_mset_mset)
  with assms(2) show "remaining_time r = processing_time r \<and> 0 < remaining_time r"
    by auto
qed


subsection \<open>The generated batch\<close>

text \<open>
  An insertion sort places a new element in front of the elements that have its key,
  so a relation that holds between every element and the later elements with the same
  key survives the sort.
\<close>

lemma req_id_draw_request: "req_id (draw_request T rnd i) = int i"
  by (simp add: draw_request_def Request_init_def split: prod.split)

lemma arrival_time_draw_request:
  "arrival_time (draw_request T rnd i) = T * snd (snd (rnd i))"
  by (simp add: draw_request_def Request_init_def uniform_def split: prod.split)

lemma insort_key_ties:
  assumes "sorted_wrt (\<lambda>a b. f a = f b \<longrightarrow> R a b) ys"
    and "\<forall>y\<in>set ys. f x = f y \<longrightarrow> R x y"
  shows "sorted_wrt (\<lambda>a b. f a = f b \<longrightarrow> R a b) (insort_key f x ys)"
  using assms
proof (induction ys)
  case Nil
  then show ?case by simp
next
  case (Cons y ys)
  show ?case
  proof (cases "f x \<le> f y")
    case True
    with Cons.prems show ?thesis by simp
  next
    case False
    then have "f y \<noteq> f x" by auto
    moreover have "sorted_wrt (\<lambda>a b. f a = f b \<longrightarrow> R a b) (insort_key f x ys)"
      using Cons.prems by (intro Cons.IH) simp_all
    ultimately show ?thesis
      using False Cons.prems(1) by (auto simp: set_insort_key)
  qed
qed

lemma sort_key_ties:
  assumes "sorted_wrt (\<lambda>a b. f a = f b \<longrightarrow> R a b) xs"
  shows "sorted_wrt (\<lambda>a b. f a = f b \<longrightarrow> R a b) (sort_key f xs)"
  using assms
proof (induction xs)
  case Nil
  then show ?case by simp
next
  case (Cons x xs)
  then have "sorted_wrt (\<lambda>a b. f a = f b \<longrightarrow> R a b) (sort_key f xs)"
    by simp
  moreover have "\<forall>y\<in>set (sort_key f xs). f x = f y \<longrightarrow> R x y"
    using Cons.prems by simp
  ultimately show ?case
    by (simp add: sort_key_simps insort_key_ties)
qed

lemma generated_ids: "map req_id (map (draw_request T rnd) [0..<k]) = map int [0..<k]"
  by (simp add: req_id_draw_request)

lemma generate_requests_mset:
  "mset (generate_requests n T rnd) = mset (map (draw_request T rnd) [0..<nat n])"
  by (simp add: generate_requests_def)

lemma generate_requests_ids:
  "mset (map req_id (generate_requests n T rnd)) = mset (map int [0..<nat n])"
proof -
  have "mset (map req_id (generate_requests n T rnd)) =
      mset (map req_id (map (draw_request T rnd) [0..<nat n]))"
    using generate_requests_mset [of n T rnd] by (metis mset_map)
  then show ?thesis
    by (simp only: generated_ids)
qed

lemma generate_requests_ties:
  "sorted_wrt (\<lambda>a b. arrival_time a = arrival_time b \<longrightarrow> req_id a < req_id b)
     (generate_requests n T rnd)"
proof -
  have "sorted_wrt (\<lambda>i j. int i < int j) [0..<nat n]"
    using sorted_wrt_upt [of 0 "nat n"] by simp
  then have "sorted_wrt (\<lambda>a b. req_id a < req_id b) (map (draw_request T rnd) [0..<nat n])"
    by (simp add: sorted_wrt_map req_id_draw_request)
  then have "sorted_wrt (\<lambda>a b. arrival_time a = arrival_time b \<longrightarrow> req_id a < req_id b)
      (map (draw_request T rnd) [0..<nat n])"
    by (rule sorted_wrt_mono_rel [rotated]) simp
  then show ?thesis
    unfolding generate_requests_def by (rule sort_key_ties)
qed


lemma sample_source_unit:
  "0 \<le> snd (snd (sample_source i)) \<and> snd (snd (sample_source i)) < 1"
  by (simp add: sample_source_def)


section \<open>Every request is completed once\<close>

text \<open>
  Claim C1. Round robin with a positive quantum, priority scheduling and shortest job
  first, with either value of the preemptive flag, all return with the queue of the
  server empty, and the list of completion records has as many entries as the batch
  and carries the identifiers of the batch, each as often as the batch has it: once
  when the identifiers of the batch are distinct.
\<close>

theorem every_request_completed_once:
  assumes "0 < q"
  shows
    "(\<exists>completed. process_round_robin self q = Some (completed, self\<lparr>queue := []\<rparr>) \<and>
        length completed = length (queue self) \<and>
        mset (map (\<lambda>c. req_id (fst c)) completed) = mset (map req_id (queue self)) \<and>
        (distinct (map req_id (queue self)) \<longrightarrow> distinct (map (\<lambda>c. req_id (fst c)) completed))) \<and>
     (\<exists>completed. process_priority_scheduling self preemptive = (completed, self\<lparr>queue := []\<rparr>) \<and>
        length completed = length (queue self) \<and>
        mset (map (\<lambda>c. req_id (fst c)) completed) = mset (map req_id (queue self)) \<and>
        (distinct (map req_id (queue self)) \<longrightarrow> distinct (map (\<lambda>c. req_id (fst c)) completed))) \<and>
     (\<exists>completed. process_shortest_job_first self preemptive = (completed, self\<lparr>queue := []\<rparr>) \<and>
        length completed = length (queue self) \<and>
        mset (map (\<lambda>c. req_id (fst c)) completed) = mset (map req_id (queue self)) \<and>
        (distinct (map req_id (queue self)) \<longrightarrow> distinct (map (\<lambda>c. req_id (fst c)) completed)))"
proof (intro conjI)
  obtain t c where rr: "rr_loop q (queue self, 0, []) = Some ([], t, c)"
      "mset (map (\<lambda>c. req_id (fst c)) c) = mset (map req_id (queue self))"
    using rr_loop_ids [OF assms] by blast
  from rr(1) have "process_round_robin self q = Some (c, self\<lparr>queue := []\<rparr>)"
    by (simp add: process_round_robin_def)
  with rr(2) completed_ids [OF rr(2)]
  show "\<exists>completed. process_round_robin self q = Some (completed, self\<lparr>queue := []\<rparr>) \<and>
        length completed = length (queue self) \<and>
        mset (map (\<lambda>c. req_id (fst c)) completed) = mset (map req_id (queue self)) \<and>
        (distinct (map req_id (queue self)) \<longrightarrow> distinct (map (\<lambda>c. req_id (fst c)) completed))"
    by blast
next
  obtain t c where pr: "priority_loop preemptive (queue self, 0, []) = ([], t, c)"
      "mset (map fst c) = mset (queue self)"
    using priority_loop_requests by blast
  from pr(1) have "process_priority_scheduling self preemptive = (c, self\<lparr>queue := []\<rparr>)"
    by (simp add: process_priority_scheduling_def)
  with mset_requests_ids [OF pr(2)] completed_ids [OF mset_requests_ids [OF pr(2)]]
  show "\<exists>completed. process_priority_scheduling self preemptive = (completed, self\<lparr>queue := []\<rparr>) \<and>
        length completed = length (queue self) \<and>
        mset (map (\<lambda>c. req_id (fst c)) completed) = mset (map req_id (queue self)) \<and>
        (distinct (map req_id (queue self)) \<longrightarrow> distinct (map (\<lambda>c. req_id (fst c)) completed))"
    by blast
next
  obtain t c where sj: "sjf_loop preemptive (queue self, 0, []) = ([], t, c)"
      "mset (map fst c) = mset (queue self)"
    using sjf_loop_requests by blast
  from sj(1) have "process_shortest_job_first self preemptive = (c, self\<lparr>queue := []\<rparr>)"
    by (simp add: process_shortest_job_first_def)
  with mset_requests_ids [OF sj(2)] completed_ids [OF mset_requests_ids [OF sj(2)]]
  show "\<exists>completed. process_shortest_job_first self preemptive = (completed, self\<lparr>queue := []\<rparr>) \<and>
        length completed = length (queue self) \<and>
        mset (map (\<lambda>c. req_id (fst c)) completed) = mset (map req_id (queue self)) \<and>
        (distinct (map req_id (queue self)) \<longrightarrow> distinct (map (\<lambda>c. req_id (fst c)) completed))"
    by blast
qed

theorem every_request_completed_once_witness:
  "0 < (2::int) \<and>
   (\<exists>completed.
      process_round_robin \<lparr>queue = [Request_init 0 5 1 0, Request_init 1 3 2 1]\<rparr> 2 =
        Some (completed, \<lparr>queue = []\<rparr>) \<and>
      length completed = 2 \<and>
      mset (map (\<lambda>c. req_id (fst c)) completed) = {#0, 1#} \<and>
      distinct (map (\<lambda>c. req_id (fst c)) completed)) \<and>
   (\<exists>completed.
      process_priority_scheduling \<lparr>queue = [Request_init 0 5 1 0, Request_init 1 3 2 1]\<rparr> True =
        (completed, \<lparr>queue = []\<rparr>) \<and>
      length completed = 2 \<and>
      mset (map (\<lambda>c. req_id (fst c)) completed) = {#0, 1#} \<and>
      distinct (map (\<lambda>c. req_id (fst c)) completed)) \<and>
   (\<exists>completed.
      process_shortest_job_first \<lparr>queue = [Request_init 0 5 1 0, Request_init 1 3 2 1]\<rparr> True =
        (completed, \<lparr>queue = []\<rparr>) \<and>
      length completed = 2 \<and>
      mset (map (\<lambda>c. req_id (fst c)) completed) = {#0, 1#} \<and>
      distinct (map (\<lambda>c. req_id (fst c)) completed))"
proof -
  let ?S = "\<lparr>queue = [Request_init 0 5 1 0, Request_init 1 3 2 1]\<rparr>"
  have q: "0 < (2::int)"
    by simp
  have batch: "length (queue ?S) = 2" "mset (map req_id (queue ?S)) = {#0, 1#}"
      "distinct (map req_id (queue ?S))" "?S\<lparr>queue := []\<rparr> = \<lparr>queue = []\<rparr>"
    by (simp_all add: Request_init_def)
  note run = every_request_completed_once [OF q, of ?S True, unfolded batch]
  from run batch(3) have rr: "\<exists>completed.
      process_round_robin ?S 2 = Some (completed, \<lparr>queue = []\<rparr>) \<and>
      length completed = 2 \<and>
      mset (map (\<lambda>c. req_id (fst c)) completed) = {#0, 1#} \<and>
      distinct (map (\<lambda>c. req_id (fst c)) completed)"
    by blast
  from run batch(3) have pr: "\<exists>completed.
      process_priority_scheduling ?S True = (completed, \<lparr>queue = []\<rparr>) \<and>
      length completed = 2 \<and>
      mset (map (\<lambda>c. req_id (fst c)) completed) = {#0, 1#} \<and>
      distinct (map (\<lambda>c. req_id (fst c)) completed)"
    by blast
  from run batch(3) have sj: "\<exists>completed.
      process_shortest_job_first ?S True = (completed, \<lparr>queue = []\<rparr>) \<and>
      length completed = 2 \<and>
      mset (map (\<lambda>c. req_id (fst c)) completed) = {#0, 1#} \<and>
      distinct (map (\<lambda>c. req_id (fst c)) completed)"
    by blast
  from q rr pr sj show ?thesis
    by blast
qed


section \<open>Termination\<close>

text \<open>
  Claim C9. Every run ends: with a positive quantum the round-robin loop returns after
  some number \<open>n\<close> of iterations, on the empty queue, and so do the loops of priority
  scheduling and of shortest job first. An iteration on a non-empty queue either takes
  a request out of the queue, or (round robin only) keeps the queue length and lowers
  the total remaining time of the queued requests by the quantum.
\<close>

theorem every_run_terminates:
  assumes "0 < q"
  shows
    "(\<exists>n. fst ((rr_step q ^^ n) s) = [] \<and> rr_loop q s = Some ((rr_step q ^^ n) s)) \<and>
     (fst s \<noteq> [] \<longrightarrow>
        Suc (length (fst (rr_step q s))) = length (fst s) \<or>
        length (fst (rr_step q s)) = length (fst s) \<and>
        sum_list (map remaining_time (fst (rr_step q s))) + q =
          sum_list (map remaining_time (fst s))) \<and>
     (\<exists>n. fst ((priority_step preemptive ^^ n) s) = [] \<and>
          priority_loop preemptive s = (priority_step preemptive ^^ n) s) \<and>
     (fst s \<noteq> [] \<longrightarrow> Suc (length (fst (priority_step preemptive s))) = length (fst s)) \<and>
     (\<exists>n. fst ((sjf_step preemptive ^^ n) s) = [] \<and>
          sjf_loop preemptive s = (sjf_step preemptive ^^ n) s) \<and>
     (fst s \<noteq> [] \<longrightarrow> Suc (length (fst (sjf_step preemptive s))) = length (fst s))"
  using rr_loop_iterations [OF assms, where s = s] rr_step_progress [where s = s and q = q]
    priority_loop_iterations [where s = s and preemptive = preemptive]
    sjf_loop_iterations [where s = s and preemptive = preemptive]
    selection_step_progress [where s = s and preemptive = preemptive]
  by blast


theorem every_run_terminates_witness:
  "0 < (2::int) \<and>
   (\<exists>n. fst ((rr_step 2 ^^ n) ([Request_init 0 5 1 0, Request_init 1 3 2 1], 0, [])) = [] \<and>
        rr_loop 2 ([Request_init 0 5 1 0, Request_init 1 3 2 1], 0, []) =
          Some ((rr_step 2 ^^ n) ([Request_init 0 5 1 0, Request_init 1 3 2 1], 0, []))) \<and>
   (\<exists>n. fst ((priority_step True ^^ n) ([Request_init 0 5 1 0, Request_init 1 3 2 1], 0, [])) = [] \<and>
        priority_loop True ([Request_init 0 5 1 0, Request_init 1 3 2 1], 0, []) =
          (priority_step True ^^ n) ([Request_init 0 5 1 0, Request_init 1 3 2 1], 0, [])) \<and>
   (\<exists>n. fst ((sjf_step True ^^ n) ([Request_init 0 5 1 0, Request_init 1 3 2 1], 0, [])) = [] \<and>
        sjf_loop True ([Request_init 0 5 1 0, Request_init 1 3 2 1], 0, []) =
          (sjf_step True ^^ n) ([Request_init 0 5 1 0, Request_init 1 3 2 1], 0, [])) \<and>
   length (fst (rr_step 2 ([Request_init 0 5 1 0, Request_init 1 3 2 1], 0, []))) = 2 \<and>
   sum_list (map remaining_time
     (fst (rr_step 2 ([Request_init 0 5 1 0, Request_init 1 3 2 1], 0, [])))) + 2 = 8"
proof -
  have q: "0 < (2::int)"
    by simp
  note run = every_run_terminates
    [OF q, of "([Request_init 0 5 1 0, Request_init 1 3 2 1], 0, [])" True]
  have step: "length (fst (rr_step 2 ([Request_init 0 5 1 0, Request_init 1 3 2 1], 0, []))) = 2"
      "sum_list (map remaining_time
         (fst (rr_step 2 ([Request_init 0 5 1 0, Request_init 1 3 2 1], 0, [])))) + 2 = 8"
    by (simp_all add: Request_init_def)
  from q run step show ?thesis
    by blast
qed

section \<open>The final cumulative time\<close>

text \<open>
  Claim C10, as the specification states it, for any batch. Round robin charges the
  remaining times and the selection loops charge the processing times, so on a batch
  that a round-robin run has already consumed (remaining times 0, processing times 5
  and 3) round robin ends at cumulative time 0 and priority scheduling at 8, the sum of
  the processing times. A request with processing time 0 is recorded at cumulative
  time 0, which is not positive.
\<close>

theorem same_final_time_counterexample:
  "rr_loop 2
     ([Request_init 0 5 1 0\<lparr>remaining_time := 0\<rparr>,
       Request_init 1 3 2 1\<lparr>remaining_time := 0\<rparr>], 0, []) =
     Some ([], 0,
       [(Request_init 0 5 1 0\<lparr>remaining_time := 0\<rparr>, 0),
        (Request_init 1 3 2 1\<lparr>remaining_time := 0\<rparr>, 0)]) \<and>
   priority_loop False
     ([Request_init 0 5 1 0\<lparr>remaining_time := 0\<rparr>,
       Request_init 1 3 2 1\<lparr>remaining_time := 0\<rparr>], 0, []) =
     ([], 8,
       [(Request_init 0 5 1 0\<lparr>remaining_time := 0\<rparr>, 5),
        (Request_init 1 3 2 1\<lparr>remaining_time := 0\<rparr>, 8)]) \<and>
   sum_list (map processing_time
     [Request_init 0 5 1 0\<lparr>remaining_time := 0\<rparr>,
      Request_init 1 3 2 1\<lparr>remaining_time := 0\<rparr>]) = 8 \<and>
   simulate_scheduling [Request_init 0 0 1 0] ''sjf'' 2 False =
     Some (Inr [(Request_init 0 0 1 0, 0)])"
  by (simp add: rr_loop.simps priority_loop.simps priority_step_def priority_select_def
      py_min_def Request_init_def simulate_scheduling_def add_request_def WebServer_init_def
      process_shortest_job_first_def sjf_loop.simps sjf_step_def sjf_select_def)

text \<open>
  Claim C10, amended. On a batch of fresh requests (the remaining time of each equal to
  its processing time) with positive processing times, round robin with a positive
  quantum, priority scheduling and shortest job first all end with the same cumulative
  time, the sum of the processing times of the batch, which is also the time of the
  last record; in each run the emitted times are positive and ascending in emission
  order.
\<close>

theorem same_final_time:
  assumes "0 < q"
    and "\<forall>r\<in>set batch. remaining_time r = processing_time r \<and> 0 < processing_time r"
  shows
    "(\<exists>completed.
        rr_loop q (batch, 0, []) = Some ([], sum_list (map processing_time batch), completed) \<and>
        simulate_scheduling batch ''round_robin'' q preemptive = Some (Inr completed) \<and>
        length completed = length batch \<and>
        sorted (map snd completed) \<and> (\<forall>c\<in>set completed. 0 < snd c) \<and>
        (batch \<noteq> [] \<longrightarrow> snd (last completed) = sum_list (map processing_time batch))) \<and>
     (\<exists>completed.
        priority_loop preemptive (batch, 0, []) =
          ([], sum_list (map processing_time batch), completed) \<and>
        simulate_scheduling batch ''priority'' q preemptive = Some (Inr completed) \<and>
        length completed = length batch \<and>
        sorted (map snd completed) \<and> (\<forall>c\<in>set completed. 0 < snd c) \<and>
        (batch \<noteq> [] \<longrightarrow> snd (last completed) = sum_list (map processing_time batch))) \<and>
     (\<exists>completed.
        sjf_loop preemptive (batch, 0, []) =
          ([], sum_list (map processing_time batch), completed) \<and>
        simulate_scheduling batch ''sjf'' q preemptive = Some (Inr completed) \<and>
        length completed = length batch \<and>
        sorted (map snd completed) \<and> (\<forall>c\<in>set completed. 0 < snd c) \<and>
        (batch \<noteq> [] \<longrightarrow> snd (last completed) = sum_list (map processing_time batch)))"
proof (intro conjI)
  let ?T = "sum_list (map processing_time batch)"
  have positive: "\<forall>r\<in>set batch. 0 < processing_time r"
    using assms(2) by blast
  {
    obtain c where c: "rr_loop q (batch, 0, []) = Some ([], ?T, c)"
        "sorted (map snd c)" "\<forall>x\<in>set c. 0 < snd x"
        "c \<noteq> [] \<longrightarrow> snd (last c) = ?T"
      using rr_loop_times [OF assms] by blast
    obtain t' c' where c': "rr_loop q (batch, 0, []) = Some ([], t', c')"
        "mset (map (\<lambda>c. req_id (fst c)) c') = mset (map req_id batch)"
      using rr_loop_ids [OF assms(1)] by blast
    from c(1) c'(1) have "c' = c" by simp
    with c'(2) have len: "length c = length batch"
      using completed_ids by blast
    have "simulate_scheduling batch ''round_robin'' q preemptive = Some (Inr c)"
      using c(1)
      by (simp add: simulate_scheduling_def load_requests WebServer_init_def
          process_round_robin_def)
    with c len
    show "\<exists>completed.
        rr_loop q (batch, 0, []) = Some ([], ?T, completed) \<and>
        simulate_scheduling batch ''round_robin'' q preemptive = Some (Inr completed) \<and>
        length completed = length batch \<and>
        sorted (map snd completed) \<and> (\<forall>c\<in>set completed. 0 < snd c) \<and>
        (batch \<noteq> [] \<longrightarrow> snd (last completed) = ?T)"
      by (intro exI [of _ c]) auto
  }
  {
    obtain c where c: "priority_loop preemptive (batch, 0, []) = ([], ?T, c)"
        "sorted (map snd c)" "\<forall>x\<in>set c. 0 < snd x"
        "c \<noteq> [] \<longrightarrow> snd (last c) = ?T"
      using priority_loop_times [OF positive] by blast
    obtain t' c' where c': "priority_loop preemptive (batch, 0, []) = ([], t', c')"
        "mset (map fst c') = mset batch"
      using priority_loop_requests by blast
    from c(1) c'(1) have "c' = c" by simp
    with c'(2) have len: "length c = length batch"
      using completed_ids mset_requests_ids by blast
    have "simulate_scheduling batch ''priority'' q preemptive = Some (Inr c)"
      using c(1)
      by (simp add: simulate_scheduling_def load_requests WebServer_init_def
          process_priority_scheduling_def)
    with c len
    show "\<exists>completed.
        priority_loop preemptive (batch, 0, []) = ([], ?T, completed) \<and>
        simulate_scheduling batch ''priority'' q preemptive = Some (Inr completed) \<and>
        length completed = length batch \<and>
        sorted (map snd completed) \<and> (\<forall>c\<in>set completed. 0 < snd c) \<and>
        (batch \<noteq> [] \<longrightarrow> snd (last completed) = ?T)"
      by (intro exI [of _ c]) auto
  }
  {
    obtain c where c: "sjf_loop preemptive (batch, 0, []) = ([], ?T, c)"
        "sorted (map snd c)" "\<forall>x\<in>set c. 0 < snd x"
        "c \<noteq> [] \<longrightarrow> snd (last c) = ?T"
      using sjf_loop_times [OF positive] by blast
    obtain t' c' where c': "sjf_loop preemptive (batch, 0, []) = ([], t', c')"
        "mset (map fst c') = mset batch"
      using sjf_loop_requests by blast
    from c(1) c'(1) have "c' = c" by simp
    with c'(2) have len: "length c = length batch"
      using completed_ids mset_requests_ids by blast
    have "simulate_scheduling batch ''sjf'' q preemptive = Some (Inr c)"
      using c(1)
      by (simp add: simulate_scheduling_def load_requests WebServer_init_def
          process_shortest_job_first_def)
    with c len
    show "\<exists>completed.
        sjf_loop preemptive (batch, 0, []) = ([], ?T, completed) \<and>
        simulate_scheduling batch ''sjf'' q preemptive = Some (Inr completed) \<and>
        length completed = length batch \<and>
        sorted (map snd completed) \<and> (\<forall>c\<in>set completed. 0 < snd c) \<and>
        (batch \<noteq> [] \<longrightarrow> snd (last completed) = ?T)"
      by (intro exI [of _ c]) auto
  }
qed

theorem same_final_time_witness:
  "0 < (2::int) \<and>
   (\<exists>completed.
      rr_loop 2 ([Request_init 0 5 1 0, Request_init 1 3 2 1], 0, []) = Some ([], 8, completed) \<and>
      simulate_scheduling [Request_init 0 5 1 0, Request_init 1 3 2 1] ''round_robin'' 2 False =
        Some (Inr completed) \<and>
      length completed = 2 \<and> sorted (map snd completed) \<and> snd (last completed) = 8) \<and>
   (\<exists>completed.
      priority_loop False ([Request_init 0 5 1 0, Request_init 1 3 2 1], 0, []) =
        ([], 8, completed) \<and>
      simulate_scheduling [Request_init 0 5 1 0, Request_init 1 3 2 1] ''priority'' 2 False =
        Some (Inr completed) \<and>
      length completed = 2 \<and> sorted (map snd completed) \<and> snd (last completed) = 8) \<and>
   (\<exists>completed.
      sjf_loop False ([Request_init 0 5 1 0, Request_init 1 3 2 1], 0, []) =
        ([], 8, completed) \<and>
      simulate_scheduling [Request_init 0 5 1 0, Request_init 1 3 2 1] ''sjf'' 2 False =
        Some (Inr completed) \<and>
      length completed = 2 \<and> sorted (map snd completed) \<and> snd (last completed) = 8)"
proof -
  have fresh: "\<forall>r\<in>set [Request_init 0 5 1 0, Request_init 1 3 2 1].
      remaining_time r = processing_time r \<and> 0 < processing_time r"
    by (simp add: Request_init_def)
  have q: "0 < (2::int)" by simp
  have total: "sum_list (map processing_time [Request_init 0 5 1 0, Request_init 1 3 2 1]) = 8"
    by (simp add: Request_init_def)
  from same_final_time [OF q fresh, of False] q show ?thesis
    unfolding total by auto
qed

section \<open>Round robin: the slicing rule\<close>

text \<open>
  Claim C2, the example as the specification computes it. For the queue of two requests
  with processing times 5 and 3 and quantum 2, the specification expects the second
  request to complete at cumulative time 5 and the first at 6. The loop gives three
  full slices before the first completion, so the second request completes at 7 and
  the first at 8.
\<close>

theorem round_robin_example_counterexample:
  "process_round_robin \<lparr>queue = [Request_init 1 5 1 0, Request_init 2 3 1 0]\<rparr> 2 =
     Some ([(Request_init 2 3 1 0\<lparr>remaining_time := 0\<rparr>, 7),
            (Request_init 1 5 1 0\<lparr>remaining_time := 0\<rparr>, 8)], \<lparr>queue = []\<rparr>) \<and>
   process_round_robin \<lparr>queue = [Request_init 1 5 1 0, Request_init 2 3 1 0]\<rparr> 2 \<noteq>
     Some ([(Request_init 2 3 1 0\<lparr>remaining_time := 0\<rparr>, 5),
            (Request_init 1 5 1 0\<lparr>remaining_time := 0\<rparr>, 6)], \<lparr>queue = []\<rparr>)"
  by (simp add: process_round_robin_def rr_loop.simps Request_init_def)

text \<open>
  Claim C2, amended. Round robin follows the slicing rule: on an empty queue the loop
  ends; otherwise the head is popped, and either its remaining time is at most the
  quantum, it is added to the cumulative time, the remaining time is set to 0 and a
  record with the new cumulative time is emitted, or the quantum is added to the
  cumulative time, subtracted from the remaining time, and the request goes to the
  tail. For two requests with processing times 5 and 3 and quantum 2 the second
  request completes at cumulative time 7 and the first at 8.
\<close>

theorem round_robin_slicing:
  "rr_loop q ([], total_time, completed_requests) = Some ([], total_time, completed_requests) \<and>
   rr_loop q (r # rest, total_time, completed_requests) =
     (if remaining_time r \<le> q
      then rr_loop q (rest, total_time + remaining_time r,
             completed_requests @ [(r\<lparr>remaining_time := 0\<rparr>, total_time + remaining_time r)])
      else rr_loop q (rest @ [r\<lparr>remaining_time := remaining_time r - q\<rparr>],
             total_time + q, completed_requests)) \<and>
   process_round_robin \<lparr>queue = [Request_init i1 5 p1 a1, Request_init i2 3 p2 a2]\<rparr> 2 =
     Some ([(Request_init i2 3 p2 a2\<lparr>remaining_time := 0\<rparr>, 7),
            (Request_init i1 5 p1 a1\<lparr>remaining_time := 0\<rparr>, 8)], \<lparr>queue = []\<rparr>)"
proof (intro conjI)
  show "rr_loop q ([], total_time, completed_requests) =
      Some ([], total_time, completed_requests)"
    by (subst rr_loop.simps) simp
next
  show "rr_loop q (r # rest, total_time, completed_requests) =
     (if remaining_time r \<le> q
      then rr_loop q (rest, total_time + remaining_time r,
             completed_requests @ [(r\<lparr>remaining_time := 0\<rparr>, total_time + remaining_time r)])
      else rr_loop q (rest @ [r\<lparr>remaining_time := remaining_time r - q\<rparr>],
             total_time + q, completed_requests))"
    by (subst rr_loop.simps) simp
next
  show "process_round_robin \<lparr>queue = [Request_init i1 5 p1 a1, Request_init i2 3 p2 a2]\<rparr> 2 =
     Some ([(Request_init i2 3 p2 a2\<lparr>remaining_time := 0\<rparr>, 7),
            (Request_init i1 5 p1 a1\<lparr>remaining_time := 0\<rparr>, 8)], \<lparr>queue = []\<rparr>)"
    by (simp add: process_round_robin_def rr_loop.simps Request_init_def)
qed

section \<open>Priority scheduling without preemption\<close>

text \<open>
  Claim C6. Each iteration of non-preemptive priority scheduling removes a request
  whose priority value is minimal in the whole queue, adds its full processing time to
  the cumulative time and emits a record with the new cumulative time; the loop ends on
  the empty queue. For priorities 3, 1, 2 with processing times 4, 2, 5 the records
  are the request of priority 1 at time 2, that of priority 2 at time 7 and that of
  priority 3 at time 11.
\<close>

theorem priority_nonpreemptive_rule:
  "(qu \<noteq> [] \<longrightarrow>
      (\<exists>m. m \<in> set qu \<and> (\<forall>x\<in>set qu. priority m \<le> priority x) \<and>
           priority_loop False (qu, total_time, completed_requests) =
             priority_loop False
               (remove1 m qu, total_time + processing_time m,
                completed_requests @ [(m, total_time + processing_time m)]))) \<and>
   priority_loop False ([], total_time, completed_requests) =
     ([], total_time, completed_requests) \<and>
   process_priority_scheduling
     \<lparr>queue = [Request_init 0 4 3 a0, Request_init 1 2 1 a1, Request_init 2 5 2 a2]\<rparr> False =
     ([(Request_init 1 2 1 a1, 2), (Request_init 2 5 2 a2, 7), (Request_init 0 4 3 a0, 11)],
      \<lparr>queue = []\<rparr>)"
proof (intro conjI impI)
  assume nonempty: "qu \<noteq> []"
  then obtain m where m: "py_min priority qu = Inr m" "m \<in> set qu"
      "\<forall>x\<in>set qu. priority m \<le> priority x"
    using py_min_nonempty [of qu priority] by blast
  then have "priority_step False (qu, total_time, completed_requests) =
      (remove1 m qu, total_time + processing_time m,
       completed_requests @ [(m, total_time + processing_time m)])"
    by (simp add: priority_step_def priority_select_def)
  with nonempty have "priority_loop False (qu, total_time, completed_requests) =
      priority_loop False
        (remove1 m qu, total_time + processing_time m,
         completed_requests @ [(m, total_time + processing_time m)])"
    by (subst priority_loop.simps) simp
  with m(2,3) show "\<exists>m. m \<in> set qu \<and> (\<forall>x\<in>set qu. priority m \<le> priority x) \<and>
      priority_loop False (qu, total_time, completed_requests) =
        priority_loop False
          (remove1 m qu, total_time + processing_time m,
           completed_requests @ [(m, total_time + processing_time m)])"
    by blast
next
  show "priority_loop False ([], total_time, completed_requests) =
      ([], total_time, completed_requests)"
    by (subst priority_loop.simps) simp
next
  show "process_priority_scheduling
     \<lparr>queue = [Request_init 0 4 3 a0, Request_init 1 2 1 a1, Request_init 2 5 2 a2]\<rparr> False =
     ([(Request_init 1 2 1 a1, 2), (Request_init 2 5 2 a2, 7), (Request_init 0 4 3 a0, 11)],
      \<lparr>queue = []\<rparr>)"
    by (simp add: process_priority_scheduling_def priority_loop.simps priority_step_def
        priority_select_def py_min_def Request_init_def)
qed

theorem priority_nonpreemptive_rule_witness:
  "[Request_init 0 4 3 0, Request_init 1 2 1 0] \<noteq> [] \<and>
   (\<exists>m. m \<in> set [Request_init 0 4 3 0, Request_init 1 2 1 0] \<and>
        (\<forall>x\<in>set [Request_init 0 4 3 0, Request_init 1 2 1 0]. priority m \<le> priority x) \<and>
        priority_loop False ([Request_init 0 4 3 0, Request_init 1 2 1 0], 0, []) =
          priority_loop False
            (remove1 m [Request_init 0 4 3 0, Request_init 1 2 1 0], 0 + processing_time m,
             [] @ [(m, 0 + processing_time m)]))"
proof -
  have ne: "[Request_init 0 4 3 0, Request_init 1 2 1 0] \<noteq> []"
    by simp
  from priority_nonpreemptive_rule
    [of "[Request_init 0 4 3 0, Request_init 1 2 1 0]" 0 "[]" 0 0 0] ne
  show ?thesis by blast
qed

section \<open>The generator\<close>

text \<open>
  Claim C3. For a count \<open>n \<ge> 0\<close> and a bound \<open>T \<ge> 0\<close>, with the unit draws of the
  random source in \<open>[0, 1)\<close>, \<open>generate_requests\<close> returns \<open>n\<close> requests, a
  rearrangement of the requests drawn in generation order, where the request drawn in
  iteration \<open>i\<close> has the identifier \<open>i\<close>: the identifiers are distinct and are exactly
  \<open>0, \<dots>, n - 1\<close>. Every arrival time lies in \<open>[0, T]\<close>, the batch is ascending
  in arrival time, and of two requests with the same arrival time the one generated
  first comes first.
\<close>

theorem generate_requests_batch:
  assumes "0 \<le> n" and "0 \<le> T"
    and "\<forall>i<nat n. 0 \<le> snd (snd (rnd i)) \<and> snd (snd (rnd i)) < 1"
  shows
    "length (generate_requests n T rnd) = nat n \<and>
     mset (generate_requests n T rnd) = mset (map (draw_request T rnd) [0..<nat n]) \<and>
     (\<forall>i<nat n. req_id (draw_request T rnd i) = int i) \<and>
     distinct (map req_id (generate_requests n T rnd)) \<and>
     set (map req_id (generate_requests n T rnd)) = {0..<n} \<and>
     (\<forall>r\<in>set (generate_requests n T rnd). 0 \<le> arrival_time r \<and> arrival_time r \<le> T) \<and>
     sorted (map arrival_time (generate_requests n T rnd)) \<and>
     sorted_wrt (\<lambda>a b. arrival_time a = arrival_time b \<longrightarrow> req_id a < req_id b)
       (generate_requests n T rnd)"
proof (intro conjI)
  show "length (generate_requests n T rnd) = nat n"
    by (simp add: generate_requests_def)
  show "mset (generate_requests n T rnd) = mset (map (draw_request T rnd) [0..<nat n])"
    by (rule generate_requests_mset)
  show "\<forall>i<nat n. req_id (draw_request T rnd i) = int i"
    by (simp add: req_id_draw_request)
  have "distinct (map int [0..<nat n])"
    by (simp add: distinct_map)
  then show "distinct (map req_id (generate_requests n T rnd))"
    using generate_requests_ids [of n T rnd] by (metis mset_eq_imp_distinct_iff)
  have "set (map req_id (generate_requests n T rnd)) = set (map int [0..<nat n])"
    using generate_requests_ids [of n T rnd] by (metis mset_eq_setD)
  also have "\<dots> = {0..<n}"
    using assms(1) by (simp add: image_int_atLeastLessThan)
  finally show "set (map req_id (generate_requests n T rnd)) = {0..<n}" .
  show "\<forall>r\<in>set (generate_requests n T rnd). 0 \<le> arrival_time r \<and> arrival_time r \<le> T"
  proof
    fix r
    assume "r \<in> set (generate_requests n T rnd)"
    then obtain i where i: "i < nat n" "r = draw_request T rnd i"
      by (auto simp: generate_requests_def)
    with assms(3) have u: "0 \<le> snd (snd (rnd i))" "snd (snd (rnd i)) \<le> 1"
      by auto
    from assms(2) u have "0 \<le> T * snd (snd (rnd i))" "T * snd (snd (rnd i)) \<le> T"
      by (simp_all add: mult_left_le)
    with i(2) show "0 \<le> arrival_time r \<and> arrival_time r \<le> T"
      by (simp add: arrival_time_draw_request)
  qed
  show "sorted (map arrival_time (generate_requests n T rnd))"
    by (simp add: generate_requests_def)
  show "sorted_wrt (\<lambda>a b. arrival_time a = arrival_time b \<longrightarrow> req_id a < req_id b)
       (generate_requests n T rnd)"
    by (rule generate_requests_ties)
qed


theorem generate_requests_batch_witness:
  "0 \<le> (3::int) \<and> 0 \<le> (10::real) \<and>
   length (generate_requests 3 10 sample_source) = 3 \<and>
   distinct (map req_id (generate_requests 3 10 sample_source)) \<and>
   set (map req_id (generate_requests 3 10 sample_source)) = {0..<3} \<and>
   list_all (\<lambda>r. 0 \<le> arrival_time r \<and> arrival_time r \<le> 10)
     (generate_requests 3 10 sample_source) \<and>
   sorted (map arrival_time (generate_requests 3 10 sample_source)) \<and>
   sorted_wrt (\<lambda>a b. arrival_time a = arrival_time b \<longrightarrow> req_id a < req_id b)
     (generate_requests 3 10 sample_source)"
proof -
  have n: "0 \<le> (3::int)" and T: "0 \<le> (10::real)"
    by simp_all
  have u: "\<forall>i<nat 3. 0 \<le> snd (snd (sample_source i)) \<and> snd (snd (sample_source i)) < 1"
    using sample_source_unit by blast
  note batch = generate_requests_batch [OF n T u]
  from batch have "list_all (\<lambda>r. 0 \<le> arrival_time r \<and> arrival_time r \<le> 10)
      (generate_requests 3 10 sample_source)"
    by (simp only: list_all_iff) blast
  with n T batch show ?thesis
    by simp
qed







section \<open>Errors of the driver\<close>

text \<open>
  Claim C5, as the specification states it: round robin with a quantum of zero or less
  fails with an invalid-argument error. The driver and the loop have no check of the
  quantum. With quantum 0, a batch of one fresh request with processing time 1 never
  leaves the loop, and the empty batch returns the empty list of records.
\<close>

theorem simulate_scheduling_quantum_counterexample:
  "simulate_scheduling [Request_init 0 1 1 0] ''round_robin'' 0 False = None \<and>
   simulate_scheduling [] ''round_robin'' 0 False = Some (Inr [])"
proof
  have "rr_loop 0 ([Request_init 0 1 1 0], 0, []) = None"
    by (rule rr_loop_diverges) (simp_all add: Request_init_def)
  then show "simulate_scheduling [Request_init 0 1 1 0] ''round_robin'' 0 False = None"
    by (simp add: simulate_round_robin)
  show "simulate_scheduling [] ''round_robin'' 0 False = Some (Inr [])"
    by (simp add: simulate_round_robin rr_loop.simps)
qed


text \<open>
  Claim C5, amended. The driver raises \<open>ValueError\<close> when the selector is none of
  \<open>round_robin\<close>, \<open>priority\<close> and \<open>sjf\<close>, whatever the quantum, and then no
  completion record is produced: the result is the error alone. Round robin never
  raises it: with a quantum of zero or less the run does not return when some request
  has a remaining time above the quantum, and returns a list of records otherwise.
\<close>

theorem simulate_scheduling_errors:
  "(algorithm \<noteq> ''round_robin'' \<and> algorithm \<noteq> ''priority'' \<and> algorithm \<noteq> ''sjf'' \<longrightarrow>
      simulate_scheduling requests algorithm q preemptive = Some (Inl ValueError)) \<and>
   simulate_scheduling requests ''round_robin'' q preemptive \<noteq> Some (Inl ValueError) \<and>
   (q \<le> 0 \<and> (\<exists>r\<in>set requests. q < remaining_time r) \<longrightarrow>
      simulate_scheduling requests ''round_robin'' q preemptive = None) \<and>
   (q \<le> 0 \<and> (\<forall>r\<in>set requests. remaining_time r \<le> q) \<longrightarrow>
      (\<exists>completed.
         simulate_scheduling requests ''round_robin'' q preemptive = Some (Inr completed)))"
proof (intro conjI impI)
  assume "algorithm \<noteq> ''round_robin'' \<and> algorithm \<noteq> ''priority'' \<and> algorithm \<noteq> ''sjf''"
  then show "simulate_scheduling requests algorithm q preemptive = Some (Inl ValueError)"
    by (simp add: simulate_scheduling_def)
next
  show "simulate_scheduling requests ''round_robin'' q preemptive \<noteq> Some (Inl ValueError)"
    by (cases "rr_loop q (requests, 0, [])") (simp_all add: simulate_round_robin)
next
  assume "q \<le> 0 \<and> (\<exists>r\<in>set requests. q < remaining_time r)"
  then have "rr_loop q (requests, 0, []) = None"
    by (intro rr_loop_diverges) simp_all
  then show "simulate_scheduling requests ''round_robin'' q preemptive = None"
    by (simp add: simulate_round_robin)
next
  assume "q \<le> 0 \<and> (\<forall>r\<in>set requests. remaining_time r \<le> q)"
  then obtain t c where "rr_loop q (requests, 0, []) = Some ([], t, c)"
    using rr_loop_all_complete by blast
  then show "\<exists>completed.
      simulate_scheduling requests ''round_robin'' q preemptive = Some (Inr completed)"
    by (simp add: simulate_round_robin)
qed


theorem simulate_scheduling_errors_witness:
  "''fifo'' \<noteq> ''round_robin'' \<and> ''fifo'' \<noteq> ''priority'' \<and> ''fifo'' \<noteq> ''sjf'' \<and>
   simulate_scheduling [Request_init 0 1 1 0] ''fifo'' 2 False = Some (Inl ValueError) \<and>
   (0::int) \<le> 0 \<and> (0::int) < remaining_time (Request_init 0 1 1 0) \<and>
   simulate_scheduling [Request_init 0 1 1 0] ''round_robin'' 0 False = None \<and>
   (\<exists>completed. simulate_scheduling [] ''round_robin'' 0 False = Some (Inr completed))"
proof -
  have names: "''fifo'' \<noteq> ''round_robin'' \<and> ''fifo'' \<noteq> ''priority'' \<and> ''fifo'' \<noteq> ''sjf''"
    by simp
  have rem: "(0::int) \<le> 0" "(0::int) < remaining_time (Request_init 0 1 1 0)"
    by (simp_all add: Request_init_def)
  then have stuck: "(0::int) \<le> 0 \<and> (\<exists>r\<in>set [Request_init 0 1 1 0]. 0 < remaining_time r)"
    by simp
  have none: "(0::int) \<le> 0 \<and> (\<forall>r\<in>set ([] :: Request list). remaining_time r \<le> 0)"
    by simp
  from simulate_scheduling_errors [of "''fifo''" "[Request_init 0 1 1 0]" 2 False] names
  have a: "simulate_scheduling [Request_init 0 1 1 0] ''fifo'' 2 False = Some (Inl ValueError)"
    by blast
  from simulate_scheduling_errors [of "''fifo''" "[Request_init 0 1 1 0]" 0 False] stuck
  have b: "simulate_scheduling [Request_init 0 1 1 0] ''round_robin'' 0 False = None"
    by blast
  from simulate_scheduling_errors [of "''fifo''" "[]" 0 False] none
  have c: "\<exists>completed. simulate_scheduling [] ''round_robin'' 0 False = Some (Inr completed)"
    by blast
  from names rem a b c show ?thesis
    by blast
qed

section \<open>Shortest job first with the preemptive flag\<close>

text \<open>
  Claim C7. With the preemptive flag, an iteration of shortest job first selects a
  request whose pair of remaining time and arrival time is minimal in the queue, takes
  it out and adds its full processing time to the cumulative time, in one step. No
  request is changed: after any number of iterations the queued and the recorded
  requests together are the requests of the batch, and the records returned carry the
  requests of the batch, each with the identifier and the remaining time it had.
\<close>

theorem sjf_preemptive_frame:
  "(qu \<noteq> [] \<longrightarrow>
      (\<exists>m. m \<in> set qu \<and>
           (\<forall>x\<in>set qu. (remaining_time m, arrival_time m) \<le> (remaining_time x, arrival_time x)) \<and>
           sjf_loop True (qu, total_time, completed_requests) =
             sjf_loop True
               (remove1 m qu, total_time + processing_time m,
                completed_requests @ [(m, total_time + processing_time m)]))) \<and>
   (\<forall>n. mset (fst ((sjf_step True ^^ n) (batch, 0, []))) +
          mset (map fst (snd (snd ((sjf_step True ^^ n) (batch, 0, []))))) = mset batch) \<and>
   (\<exists>completed.
      process_shortest_job_first \<lparr>queue = batch\<rparr> True = (completed, \<lparr>queue = []\<rparr>) \<and>
      mset (map fst completed) = mset batch \<and>
      mset (map (\<lambda>c. (req_id (fst c), remaining_time (fst c))) completed) =
        mset (map (\<lambda>r. (req_id r, remaining_time r)) batch))"
proof (intro conjI impI allI)
  assume nonempty: "qu \<noteq> []"
  then obtain m where m: "py_min (\<lambda>x. (remaining_time x, arrival_time x)) qu = Inr m"
      "m \<in> set qu"
      "\<forall>x\<in>set qu. (remaining_time m, arrival_time m) \<le> (remaining_time x, arrival_time x)"
    using py_min_nonempty [of qu "\<lambda>x. (remaining_time x, arrival_time x)"] by blast
  then have "sjf_step True (qu, total_time, completed_requests) =
      (remove1 m qu, total_time + processing_time m,
       completed_requests @ [(m, total_time + processing_time m)])"
    by (simp add: sjf_step_def sjf_select_def)
  with nonempty have "sjf_loop True (qu, total_time, completed_requests) =
      sjf_loop True
        (remove1 m qu, total_time + processing_time m,
         completed_requests @ [(m, total_time + processing_time m)])"
    by (subst sjf_loop.simps) simp
  with m(2,3) show "\<exists>m. m \<in> set qu \<and>
      (\<forall>x\<in>set qu. (remaining_time m, arrival_time m) \<le> (remaining_time x, arrival_time x)) \<and>
      sjf_loop True (qu, total_time, completed_requests) =
        sjf_loop True
          (remove1 m qu, total_time + processing_time m,
           completed_requests @ [(m, total_time + processing_time m)])"
    by blast
next
  fix n
  show "mset (fst ((sjf_step True ^^ n) (batch, 0, []))) +
      mset (map fst (snd (snd ((sjf_step True ^^ n) (batch, 0, []))))) = mset batch"
    by (rule sjf_run_requests)
next
  obtain t c where c: "sjf_loop True (batch, 0, []) = ([], t, c)" "mset (map fst c) = mset batch"
    using sjf_loop_requests by blast
  from c(1) have run: "process_shortest_job_first \<lparr>queue = batch\<rparr> True = (c, \<lparr>queue = []\<rparr>)"
    by (simp add: process_shortest_job_first_def)
  have "mset (map (\<lambda>r. (req_id r, remaining_time r)) (map fst c)) =
      mset (map (\<lambda>r. (req_id r, remaining_time r)) batch)"
    using c(2) by (metis mset_map)
  then have "mset (map (\<lambda>c. (req_id (fst c), remaining_time (fst c))) c) =
      mset (map (\<lambda>r. (req_id r, remaining_time r)) batch)"
    by (simp add: comp_def)
  with run c(2) show "\<exists>completed.
      process_shortest_job_first \<lparr>queue = batch\<rparr> True = (completed, \<lparr>queue = []\<rparr>) \<and>
      mset (map fst completed) = mset batch \<and>
      mset (map (\<lambda>c. (req_id (fst c), remaining_time (fst c))) completed) =
        mset (map (\<lambda>r. (req_id r, remaining_time r)) batch)"
    by blast
qed


theorem sjf_preemptive_frame_witness:
  "[Request_init 0 5 1 1, Request_init 1 3 2 0] \<noteq> [] \<and>
   (\<exists>m. m \<in> set [Request_init 0 5 1 1, Request_init 1 3 2 0] \<and>
        sjf_loop True ([Request_init 0 5 1 1, Request_init 1 3 2 0], 0, []) =
          sjf_loop True
            (remove1 m [Request_init 0 5 1 1, Request_init 1 3 2 0], 0 + processing_time m,
             [] @ [(m, 0 + processing_time m)])) \<and>
   (\<exists>completed.
      process_shortest_job_first \<lparr>queue = [Request_init 0 5 1 1, Request_init 1 3 2 0]\<rparr> True =
        (completed, \<lparr>queue = []\<rparr>) \<and>
      mset (map fst completed) = mset [Request_init 0 5 1 1, Request_init 1 3 2 0])"
proof -
  have ne: "[Request_init 0 5 1 1, Request_init 1 3 2 0] \<noteq> []"
    by simp
  from sjf_preemptive_frame
    [of "[Request_init 0 5 1 1, Request_init 1 3 2 0]" 0 "[]"
      "[Request_init 0 5 1 1, Request_init 1 3 2 0]"] ne
  show ?thesis by blast
qed

section \<open>The remaining time\<close>

text \<open>
  Claim C4, as the specification states it: under every algorithm a request is in the
  completion records exactly when its remaining time is 0. Priority scheduling and
  shortest job first never write the remaining time: a fresh request with processing
  time 4 is recorded with its remaining time still 4.
\<close>

theorem remaining_time_zero_counterexample:
  "process_priority_scheduling \<lparr>queue = [Request_init 0 4 1 0]\<rparr> False =
     ([(Request_init 0 4 1 0, 4)], \<lparr>queue = []\<rparr>) \<and>
   remaining_time (Request_init 0 4 1 0) = 4 \<and>
   process_shortest_job_first \<lparr>queue = [Request_init 0 4 1 0]\<rparr> False =
     ([(Request_init 0 4 1 0, 4)], \<lparr>queue = []\<rparr>)"
  by (simp add: process_priority_scheduling_def priority_loop.simps priority_step_def
      priority_select_def process_shortest_job_first_def sjf_loop.simps sjf_step_def
      sjf_select_def py_min_def Request_init_def)

text \<open>
  Claim C4, amended. On a batch of fresh requests with positive processing times, in
  every state of a round-robin run with a positive quantum the remaining time of a
  request lies between 0 and its processing time, it is positive for the queued
  requests and 0 for the recorded ones, and every identifier of the batch is either
  queued or recorded, as often as the batch has it; the run returns records whose
  requests all have remaining time 0. Under priority scheduling and shortest job first
  the remaining time is never modified: in every state of the run each request,
  queued or recorded, has its remaining time equal to its processing time, which is
  positive.
\<close>

theorem remaining_time_bounds:
  assumes "0 < q"
    and "\<forall>r\<in>set batch. remaining_time r = processing_time r \<and> 0 < processing_time r"
  shows
    "(\<forall>n.
        (\<forall>r\<in>set (fst ((rr_step q ^^ n) (batch, 0, []))).
           0 < remaining_time r \<and> remaining_time r \<le> processing_time r) \<and>
        (\<forall>c\<in>set (snd (snd ((rr_step q ^^ n) (batch, 0, [])))).
           remaining_time (fst c) = 0 \<and> 0 \<le> processing_time (fst c)) \<and>
        mset (map req_id (fst ((rr_step q ^^ n) (batch, 0, [])))) +
          mset (map (\<lambda>c. req_id (fst c)) (snd (snd ((rr_step q ^^ n) (batch, 0, []))))) =
        mset (map req_id batch)) \<and>
     (\<exists>completed.
        process_round_robin \<lparr>queue = batch\<rparr> q = Some (completed, \<lparr>queue = []\<rparr>) \<and>
        (\<forall>c\<in>set completed. remaining_time (fst c) = 0) \<and>
        mset (map (\<lambda>c. req_id (fst c)) completed) = mset (map req_id batch)) \<and>
     (\<forall>n. \<forall>r\<in>set (fst ((priority_step preemptive ^^ n) (batch, 0, []))) \<union>
              fst ` set (snd (snd ((priority_step preemptive ^^ n) (batch, 0, [])))).
        remaining_time r = processing_time r \<and> 0 < remaining_time r) \<and>
     (\<forall>n. \<forall>r\<in>set (fst ((sjf_step preemptive ^^ n) (batch, 0, []))) \<union>
              fst ` set (snd (snd ((sjf_step preemptive ^^ n) (batch, 0, [])))).
        remaining_time r = processing_time r \<and> 0 < remaining_time r)"
proof (intro conjI allI)
  fix n
  have inv: "rr_remaining_inv ((rr_step q ^^ n) (batch, 0, []))"
    using assms by (rule rr_run_remaining)
  from inv show "\<forall>r\<in>set (fst ((rr_step q ^^ n) (batch, 0, []))).
      0 < remaining_time r \<and> remaining_time r \<le> processing_time r"
    by (simp add: rr_remaining_inv_def)
  from inv show "\<forall>c\<in>set (snd (snd ((rr_step q ^^ n) (batch, 0, [])))).
      remaining_time (fst c) = 0 \<and> 0 \<le> processing_time (fst c)"
    by (simp add: rr_remaining_inv_def)
  show "mset (map req_id (fst ((rr_step q ^^ n) (batch, 0, [])))) +
          mset (map (\<lambda>c. req_id (fst c)) (snd (snd ((rr_step q ^^ n) (batch, 0, []))))) =
        mset (map req_id batch)"
    by (rule rr_run_ids)
next
  obtain t c where c: "rr_loop q (batch, 0, []) = Some ([], t, c)"
      "\<forall>x\<in>set c. remaining_time (fst x) = 0"
    using rr_loop_remaining [OF assms] by blast
  obtain t' c' where c': "rr_loop q (batch, 0, []) = Some ([], t', c')"
      "mset (map (\<lambda>c. req_id (fst c)) c') = mset (map req_id batch)"
    using rr_loop_ids [OF assms(1)] by blast
  from c(1) c'(1) have same: "c' = c" by simp
  from c(1) have "process_round_robin \<lparr>queue = batch\<rparr> q = Some (c, \<lparr>queue = []\<rparr>)"
    by (simp add: process_round_robin_def)
  with c(2) c'(2) same show "\<exists>completed.
      process_round_robin \<lparr>queue = batch\<rparr> q = Some (completed, \<lparr>queue = []\<rparr>) \<and>
      (\<forall>c\<in>set completed. remaining_time (fst c) = 0) \<and>
      mset (map (\<lambda>c. req_id (fst c)) completed) = mset (map req_id batch)"
    by blast
next
  fix n
  show "\<forall>r\<in>set (fst ((priority_step preemptive ^^ n) (batch, 0, []))) \<union>
              fst ` set (snd (snd ((priority_step preemptive ^^ n) (batch, 0, [])))).
        remaining_time r = processing_time r \<and> 0 < remaining_time r"
    using priority_run_requests assms(2) by (rule unchanged_requests)
next
  fix n
  show "\<forall>r\<in>set (fst ((sjf_step preemptive ^^ n) (batch, 0, []))) \<union>
              fst ` set (snd (snd ((sjf_step preemptive ^^ n) (batch, 0, [])))).
        remaining_time r = processing_time r \<and> 0 < remaining_time r"
    using sjf_run_requests assms(2) by (rule unchanged_requests)
qed


theorem remaining_time_bounds_witness:
  "0 < (2::int) \<and>
   list_all (\<lambda>r. remaining_time r = processing_time r \<and> 0 < processing_time r)
     [Request_init 0 5 1 0, Request_init 1 3 2 1] \<and>
   list_all (\<lambda>r. 0 < remaining_time r \<and> remaining_time r \<le> processing_time r)
     (fst ((rr_step 2 ^^ 4) ([Request_init 0 5 1 0, Request_init 1 3 2 1], 0, []))) \<and>
   list_all (\<lambda>c. remaining_time (fst c) = 0 \<and> 0 \<le> processing_time (fst c))
     (snd (snd ((rr_step 2 ^^ 4) ([Request_init 0 5 1 0, Request_init 1 3 2 1], 0, [])))) \<and>
   (\<exists>completed.
      process_round_robin \<lparr>queue = [Request_init 0 5 1 0, Request_init 1 3 2 1]\<rparr> 2 =
        Some (completed, \<lparr>queue = []\<rparr>) \<and>
      list_all (\<lambda>c. remaining_time (fst c) = 0) completed) \<and>
   list_all (\<lambda>r. remaining_time r = processing_time r \<and> 0 < remaining_time r)
     (fst ((priority_step True ^^ 1) ([Request_init 0 5 1 0, Request_init 1 3 2 1], 0, []))) \<and>
   list_all (\<lambda>r. remaining_time r = processing_time r \<and> 0 < remaining_time r)
     (map fst (snd (snd ((sjf_step True ^^ 1)
        ([Request_init 0 5 1 0, Request_init 1 3 2 1], 0, [])))))"
proof -
  let ?batch = "[Request_init 0 5 1 0, Request_init 1 3 2 1]"
  have q: "0 < (2::int)"
    by simp
  have fresh: "\<forall>r\<in>set ?batch. remaining_time r = processing_time r \<and> 0 < processing_time r"
    by (simp add: Request_init_def)
  then have fresh': "list_all (\<lambda>r. remaining_time r = processing_time r \<and> 0 < processing_time r)
      ?batch"
    by (simp only: list_all_iff)
  note run = remaining_time_bounds [OF q fresh, of True]
  note rr = spec [where x = 4, OF run [THEN conjunct1]]
  note pr = spec [where x = 1, OF run [THEN conjunct2, THEN conjunct2, THEN conjunct1]]
  note sj = spec [where x = 1, OF run [THEN conjunct2, THEN conjunct2, THEN conjunct2]]
  from rr [THEN conjunct1]
  have a: "list_all (\<lambda>r. 0 < remaining_time r \<and> remaining_time r \<le> processing_time r)
      (fst ((rr_step 2 ^^ 4) (?batch, 0, [])))"
    by (simp only: list_all_iff)
  from rr [THEN conjunct2, THEN conjunct1]
  have b: "list_all (\<lambda>c. remaining_time (fst c) = 0 \<and> 0 \<le> processing_time (fst c))
      (snd (snd ((rr_step 2 ^^ 4) (?batch, 0, []))))"
    by (simp only: list_all_iff)
  from run [THEN conjunct2, THEN conjunct1]
  have c: "\<exists>completed.
      process_round_robin \<lparr>queue = ?batch\<rparr> 2 = Some (completed, \<lparr>queue = []\<rparr>) \<and>
      list_all (\<lambda>c. remaining_time (fst c) = 0) completed"
    by (simp only: list_all_iff) blast
  from pr
  have d: "list_all (\<lambda>r. remaining_time r = processing_time r \<and> 0 < remaining_time r)
      (fst ((priority_step True ^^ 1) (?batch, 0, [])))"
    by (simp only: list_all_iff ball_Un) (rule conjunct1)
  from sj
  have e: "list_all (\<lambda>r. remaining_time r = processing_time r \<and> 0 < remaining_time r)
      (map fst (snd (snd ((sjf_step True ^^ 1) (?batch, 0, [])))))"
    by (simp only: list_all_iff ball_Un set_map) (rule conjunct2)
  from q fresh' a b c d e show ?thesis
    by (intro conjI)
qed

end
